theory Spec2Isabelle
  imports Main
begin

text \<open>
  A model of \<open>lib/recursive.js\<close>, the recursive DNS server that answers questions under
  the top-level label \<open>eth\<close> from an external name registry and hands every other question
  to the underlying resolver: the cache key, the response cache \<open>ENSCache\<close>, and the methods
  \<open>resolve\<close>, \<open>lookup\<close>, \<open>sign\<close> and \<open>signSize\<close> of \<open>RecursiveServer\<close>. The packages
  the source imports are not part of it: their functions are parameters of the model, or are
  modelled from the specification where a statement needs them to compute.
\<close>

section \<open>Strings and numbers of the host language\<close>

text \<open>
  A JavaScript string is modelled as a \<^typ>\<open>string\<close> whose characters are the code units
  below 256 (domain names in presentation format are ASCII). \<open>toLowerCase\<close> maps
  \<open>A\<close>..\<open>Z\<close> and the Latin-1 capitals (192..222 except the multiplication sign 215) to the
  code unit 32 above and leaves every other code unit alone.
\<close>

definition lower_char :: "char \<Rightarrow> char" where
  "lower_char c =
     (let n = (of_char c :: nat)
      in if (65 \<le> n \<and> n \<le> 90) \<or> (192 \<le> n \<and> n \<le> 222 \<and> n \<noteq> 215)
         then char_of (n + 32) else c)"

definition toLowerCase :: "string \<Rightarrow> string" where
  "toLowerCase s = map lower_char s"

text \<open>
  \<open>type.toString(10)\<close> on a record type code, an unsigned integer: its decimal digits,
  most significant first, without leading zeros.
\<close>

definition digit_char :: "nat \<Rightarrow> char" where
  "digit_char d = char_of (48 + d)"

fun toString10 :: "nat \<Rightarrow> string" where
  "toString10 n =
     (if n < 10 then [digit_char n]
      else toString10 (n div 10) @ [digit_char (n mod 10)])"

declare toString10.simps [simp del]

text \<open>
  \<open>s.slice(b, e)\<close>: a negative index counts from the end of the string, and both ends
  are clamped to the string.
\<close>

definition slice :: "string \<Rightarrow> int \<Rightarrow> int \<Rightarrow> string" where
  "slice s b e =
     (let n = int (length s);
          from = (if b < 0 then max (n + b) 0 else min b n);
          to = (if e < 0 then max (n + e) 0 else min e n)
      in take (nat (to - from)) (drop (nat from) s))"

text \<open>The value of an awaited registry call, and how a template literal renders it.\<close>

datatype jsval = JSNull | JSUndefined | JSString string

fun truthy :: "jsval \<Rightarrow> bool" where
  "truthy JSNull = False"
| "truthy JSUndefined = False"
| "truthy (JSString s) = (s \<noteq> [])"

fun template :: "jsval \<Rightarrow> string" where
  "template JSNull = ''null''"
| "template JSUndefined = ''undefined''"
| "template (JSString s) = s"

section \<open>Cache keys\<close>

text \<open>The helper \<open>toKey(name, type)\<close> of \<open>lib/recursive.js\<close>.\<close>

definition toKey :: "string \<Rightarrow> nat \<Rightarrow> string" where
  "toKey name type = (toLowerCase name @ '';'') @ toString10 type"

section \<open>DNS messages\<close>

text \<open>
  The wire constants of the DNS library that the source reads: record type TXT, opcode
  QUERY, response code NOERROR and class IN, with their protocol values.
\<close>

definition types_TXT :: nat where
  "types_TXT = 16"

definition types_UNKNOWN :: nat where
  "types_UNKNOWN = 0"

definition opcodes_QUERY :: nat where
  "opcodes_QUERY = 0"

definition codes_NOERROR :: nat where
  "codes_NOERROR = 0"

definition classes_IN :: nat where
  "classes_IN = 1"

record question =
  q_name :: string
  q_type :: nat
  q_class :: nat

datatype rdata = TXTRecord "string list" | UNKNOWNRecord string

record rr =
  rr_name :: string
  rr_type :: nat
  rr_class :: nat
  rr_ttl :: nat
  rr_data :: rdata

record message =
  msg_id :: nat
  msg_qr :: bool
  msg_opcode :: nat
  msg_ad :: bool
  msg_code :: nat
  msg_question :: "question list"
  msg_answer :: "rr list"
  msg_authority :: "rr list"
  msg_additional :: "rr list"

text \<open>
  Modelled from the spec: the constructors \<open>new Message()\<close>, \<open>new Record()\<close> and
  \<open>new TXTRecord()\<close> belong to the DNS library, which is not under \<open>src/\<close>. A fresh message
  has the sentinel id 0, opcode QUERY, code NOERROR, clear flags and empty sections; a fresh
  record is the root name with no type, class IN, ttl 0 and no data; a fresh text record
  holds no strings.
\<close>

definition new_Message :: message where
  "new_Message =
     \<lparr>msg_id = 0, msg_qr = False, msg_opcode = opcodes_QUERY, msg_ad = False,
      msg_code = codes_NOERROR, msg_question = [], msg_answer = [],
      msg_authority = [], msg_additional = []\<rparr>"

text \<open>Modelled from the spec: \<open>new Record()\<close> of the DNS library, a record without data.\<close>

definition new_Record :: rr where
  "new_Record =
     \<lparr>rr_name = ''.'', rr_type = types_UNKNOWN, rr_class = classes_IN, rr_ttl = 0,
      rr_data = UNKNOWNRecord []\<rparr>"

text \<open>
  Modelled from the spec: \<open>new TXTRecord()\<close> of the DNS library, whose field \<open>txt\<close> is an
  empty list of strings.
\<close>

definition new_TXTRecord :: "string list" where
  "new_TXTRecord = []"

section \<open>The bounded store\<close>

text \<open>
  Modelled from the spec: the class \<open>LRU\<close> belongs to the package \<open>blru\<close>, which is not
  under \<open>src/\<close>. It is a bounded collection of capacity N whose eviction policy is
  least-recently-used when the capacity is exceeded; \<open>set\<close> always inserts or overwrites,
  and the store tracks access itself, so a \<open>get\<close> that finds the key refreshes its recency.
  The entries are kept in recency order: the head of \<open>items\<close> is the least recently used
  entry, the last one the most recently used.
\<close>

record ('k, 'v) LRU =
  capacity :: nat
  items :: "('k \<times> 'v) list"

text \<open>Modelled from the spec: \<open>new LRU(capacity)\<close> of \<open>blru\<close>, the empty store.\<close>

definition LRU_new :: "nat \<Rightarrow> ('k, 'v) LRU" where
  "LRU_new cap = \<lparr>capacity = cap, items = []\<rparr>"

text \<open>
  Modelled from the spec: the two list operations of \<open>blru\<close> behind \<open>set\<close> and \<open>get\<close>.
  \<open>removeList\<close> takes the entry of a key out of the recency list; \<open>compact\<close> evicts from
  the least recently used end while the capacity is exceeded.
\<close>

definition removeList :: "'k \<Rightarrow> ('k \<times> 'v) list \<Rightarrow> ('k \<times> 'v) list" where
  "removeList key xs = filter (\<lambda>kv. fst kv \<noteq> key) xs"

definition compact :: "nat \<Rightarrow> ('k \<times> 'v) list \<Rightarrow> ('k \<times> 'v) list" where
  "compact cap xs = drop (length xs - cap) xs"

text \<open>
  Modelled from the spec: \<open>LRU.set(key, value)\<close> of \<open>blru\<close> inserts or overwrites, makes
  the entry the most recently used one and evicts what exceeds the capacity; a store of
  capacity 0 stores nothing.
\<close>

definition LRU_set :: "('k, 'v) LRU \<Rightarrow> 'k \<Rightarrow> 'v \<Rightarrow> ('k, 'v) LRU" where
  "LRU_set l key v =
     (if capacity l = 0 then l
      else l\<lparr>items := compact (capacity l) (removeList key (items l) @ [(key, v)])\<rparr>)"

text \<open>
  Modelled from the spec: \<open>LRU.get(key)\<close> of \<open>blru\<close> returns the value under the key, or
  nothing, and makes an entry it finds the most recently used one.
\<close>

definition LRU_get :: "('k, 'v) LRU \<Rightarrow> 'k \<Rightarrow> 'v option \<times> ('k, 'v) LRU" where
  "LRU_get l key =
     (if capacity l = 0 then (None, l)
      else case map_of (items l) key of
             None \<Rightarrow> (None, l)
           | Some v \<Rightarrow> (Some v, l\<lparr>items := removeList key (items l) @ [(key, v)]\<rparr>))"

section \<open>Errors\<close>

text \<open>
  A rejected promise or a thrown exception is an error value: the \<open>TypeError\<close> of reading a
  property of \<open>undefined\<close>, the \<open>EncodingError\<close> of the DNS library's encoder, or whatever
  else a collaborator threw.
\<close>

datatype error = TypeError | EncodingError | Thrown string

section \<open>The response cache\<close>

text \<open>
  The class \<open>ENSCache\<close> has the single field \<open>cache\<close>, the bounded store; an entry holds
  the time of its insertion (milliseconds, \<open>Date.now()\<close>) and the compressed message.
  \<open>Message.compress\<close> and \<open>Message.decode\<close> belong to the DNS library: they are the two
  fields of a \<open>codec\<close> that every operation takes as a parameter. \<open>compress\<close> throws on a
  message that has no encoding, so its outcome is an error or the encoding. The clock
  reading of each operation is a parameter as well.
\<close>

record 'raw codec =
  compress :: "message \<Rightarrow> error + 'raw"
  decode :: "'raw \<Rightarrow> message"

record 'raw cache_item =
  time :: nat
  raw :: 'raw

type_synonym 'raw ENSCache = "(string, 'raw cache_item) LRU"

definition ENSCache_new :: "nat \<Rightarrow> 'raw ENSCache" where
  "ENSCache_new cap = LRU_new cap"

definition freshness_window :: nat where
  "freshness_window = 6 * 60 * 60 * 1000"

text \<open>
  \<open>set(name, type, msg)\<close> compresses the message before it touches the store: when
  \<open>msg.compress()\<close> throws, \<open>set\<close> throws and nothing is stored.
\<close>

definition ENSCache_set ::
  "'raw codec \<Rightarrow> 'raw ENSCache \<Rightarrow> string \<Rightarrow> nat \<Rightarrow> message \<Rightarrow> nat \<Rightarrow>
   error + 'raw ENSCache" where
  "ENSCache_set cd c name type msg now =
     (let key = toKey name type
      in case compress cd msg of
           Inl e \<Rightarrow> Inl e
         | Inr r \<Rightarrow> Inr (LRU_set c key \<lparr>time = now, raw = r\<rparr>))"

definition ENSCache_get ::
  "'raw codec \<Rightarrow> 'raw ENSCache \<Rightarrow> string \<Rightarrow> nat \<Rightarrow> nat \<Rightarrow> message option \<times> 'raw ENSCache" where
  "ENSCache_get cd c name type now =
     (let key = toKey name type
      in case LRU_get c key of
           (None, c') \<Rightarrow> (None, c')
         | (Some item, c') \<Rightarrow>
             if now > time item + freshness_window then (None, c')
             else (Some (decode cd (raw item)), c'))"

section \<open>Labels of a domain name\<close>

text \<open>
  Modelled from the spec: \<open>util.split\<close> and \<open>util.from\<close> belong to the DNS library, which is
  not under \<open>src/\<close>. \<open>util.split\<close> splits the name into its dot-separated labels and gives
  the offset at which each label starts (the root name has none; the closing dot of the name
  ends the last label and starts no new one). \<open>util.from(name, labels, index)\<close> is the name
  from the start of the label at \<open>index\<close> on, a negative index counting from the rightmost
  label; with index \<open>-1\<close> it is the top-level label with its closing dot.
\<close>

definition util_split :: "string \<Rightarrow> nat list" where
  "util_split s =
     (if s = ''.'' then []
      else 0 # map Suc (filter (\<lambda>i. s ! i = CHR ''.'') [0..<length s - 1]))"

text \<open>
  Modelled from the spec: \<open>util.from\<close> of the DNS library. An index at or beyond the number
  of labels gives the empty string; the root name, which has no labels, is returned whole.
\<close>

definition util_from :: "string \<Rightarrow> nat list \<Rightarrow> int \<Rightarrow> string" where
  "util_from name labels index =
     (let i = (if index < 0 then index + int (length labels) else index)
      in if i \<ge> int (length labels) then []
         else if i < 0 then name
         else drop (labels ! nat i) name)"

section \<open>The recursive server\<close>

text \<open>
  The two collaborators of
  \<open>resolve\<close>, the resolver \<open>this.hns\<close> and the registry client \<open>this.ethClient\<close>, are not
  under \<open>src/\<close>: the server holds them as functions from the argument of the call to its
  outcome. Every call of a collaborator is recorded as an event.
\<close>

datatype event = ResolveENS string | HnsResolve question | HnsLookup string nat

record ('raw, 'key) RecursiveServer =
  key :: 'key
  host :: string
  port :: nat
  stubHost :: string
  stubPort :: nat
  cache :: "'raw ENSCache"
  ethurl :: "string option"
  hns_resolve :: "question \<Rightarrow> error + message"
  hns_lookup :: "string \<Rightarrow> nat \<Rightarrow> error + message"
  ethClient_resolveENS :: "string \<Rightarrow> error + jsval"

text \<open>
  The constructor without options: the generated private key and the collaborators are
  its parameters.
\<close>

definition RecursiveServer_new ::
  "'key \<Rightarrow> (question \<Rightarrow> error + message) \<Rightarrow> (string \<Rightarrow> nat \<Rightarrow> error + message) \<Rightarrow>
   (string \<Rightarrow> error + jsval) \<Rightarrow> ('raw, 'key) RecursiveServer" where
  "RecursiveServer_new k hr hl er =
     \<lparr>key = k, host = ''127.0.0.1'', port = 5301, stubHost = ''127.0.0.1'',
      stubPort = 5300, cache = ENSCache_new 500, ethurl = None,
      hns_resolve = hr, hns_lookup = hl, ethClient_resolveENS = er\<rparr>"

definition signSize :: "('raw, 'key) RecursiveServer \<Rightarrow> nat" where
  "signSize srv = 94"

text \<open>
  \<open>sign(msg, host, port)\<close>. \<open>hsig.sign\<close> belongs to the DNS library and is the first
  parameter of the model. It is called with the message and the key, and it reads the clock
  itself (the signature record it builds carries the time of signing): the clock reading of
  the call is its third argument.
\<close>

definition sign ::
  "('buf \<Rightarrow> 'key \<Rightarrow> nat \<Rightarrow> 'tag) \<Rightarrow> ('raw, 'key) RecursiveServer \<Rightarrow> 'buf \<Rightarrow> string \<Rightarrow> nat \<Rightarrow>
   nat \<Rightarrow> 'tag" where
  "sign hsig_sign srv msg h p clock = hsig_sign msg (key srv) clock"

text \<open>
  \<open>resolve(req, rinfo)\<close>. The result is the outcome of the promise, the server with its
  cache as the call leaves it, and the collaborator calls made, in order. \<open>now\<close> is the
  clock reading of the cache lookup and \<open>later\<close> the one of the cache store, after the
  registry has answered. The branch \<open>if (!res)\<close> of the source has an empty body (a comment
  only), so a falsy registry value takes the same path as an address. The synthesized message
  is stored before it is returned: when \<open>this.cache.set\<close> throws, \<open>resolve\<close> is rejected
  with that error and the cache is as the lookup left it.
\<close>

definition resolve ::
  "'raw codec \<Rightarrow> ('raw, 'key) RecursiveServer \<Rightarrow> message \<Rightarrow> nat \<Rightarrow> nat \<Rightarrow>
   (error + message) \<times> ('raw, 'key) RecursiveServer \<times> event list" where
  "resolve cd srv req now later =
     (case msg_question req of
        [] \<Rightarrow> (Inl TypeError, srv, [])
      | qs # _ \<Rightarrow>
          let labels = util_split (q_name qs);
              label = util_from (q_name qs) labels (- 1)
          in if label = ''eth.'' then
               (case ENSCache_get cd (cache srv) (q_name qs) types_TXT now of
                  (Some cached, c1) \<Rightarrow> (Inr cached, srv\<lparr>cache := c1\<rparr>, [])
                | (None, c1) \<Rightarrow>
                    let name = slice (q_name qs) 0 (int (length (q_name qs)) - 1)
                    in (case ethClient_resolveENS srv name of
                         Inl e \<Rightarrow> (Inl e, srv\<lparr>cache := c1\<rparr>, [ResolveENS name])
                       | Inr res \<Rightarrow>
                           let data = '''' @ ''oa1:eth ''
                                 @ (''recipient_address='' @ template res @ ''; '')
                                 @ (''recipient_name='' @ name @ '';'');
                               msg = new_Message\<lparr>msg_id := 0, msg_opcode := opcodes_QUERY,
                                 msg_ad := False, msg_question := [qs], msg_answer := []\<rparr>;
                               rd = new_TXTRecord @ [data];
                               rec = new_Record\<lparr>rr_name := q_name qs, rr_type := types_TXT,
                                 rr_ttl := 86000, rr_data := TXTRecord rd\<rparr>;
                               msg = msg\<lparr>msg_answer := msg_answer msg @ [rec]\<rparr>
                           in (case ENSCache_set cd c1 (q_name qs) types_TXT msg later of
                                 Inl e \<Rightarrow> (Inl e, srv\<lparr>cache := c1\<rparr>, [ResolveENS name])
                               | Inr c2 \<Rightarrow> (Inr msg, srv\<lparr>cache := c2\<rparr>, [ResolveENS name]))))
             else (hns_resolve srv qs, srv, [HnsResolve qs]))"

text \<open>
  The message that \<open>resolve\<close> builds between the registry call and the cache store (lines
  256 to 277 of the source), under a name of its own for the statements about it: the
  bindings are those of \<open>resolve\<close>, and \<open>resolve_synthesis\<close> shows that this is the message
  which \<open>resolve\<close> stores and returns.
\<close>

definition synthesized :: "question \<Rightarrow> jsval \<Rightarrow> message" where
  "synthesized qs res =
     (let name = slice (q_name qs) 0 (int (length (q_name qs)) - 1);
          data = '''' @ ''oa1:eth ''
            @ (''recipient_address='' @ template res @ ''; '')
            @ (''recipient_name='' @ name @ '';'');
          msg = new_Message\<lparr>msg_id := 0, msg_opcode := opcodes_QUERY,
            msg_ad := False, msg_question := [qs], msg_answer := []\<rparr>;
          rd = new_TXTRecord @ [data];
          rec = new_Record\<lparr>rr_name := q_name qs, rr_type := types_TXT,
            rr_ttl := 86000, rr_data := TXTRecord rd\<rparr>
      in msg\<lparr>msg_answer := msg_answer msg @ [rec]\<rparr>)"

definition lookup ::
  "('raw, 'key) RecursiveServer \<Rightarrow> string \<Rightarrow> nat \<Rightarrow>
   (error + message) \<times> ('raw, 'key) RecursiveServer \<times> event list" where
  "lookup srv name type = (hns_lookup srv name type, srv, [HnsLookup name type])"

section \<open>Sequences of cache operations\<close>

text \<open>
  A history of the cache: calls of \<open>set\<close> and \<open>get\<close>, each with its clock reading, applied
  in order; a \<open>set\<close> that throws leaves the cache as it was. \<open>keys_set\<close> lists the keys
  under which the \<open>set\<close> calls of a history write.
\<close>

datatype cache_op = CacheSet string nat message nat | CacheGet string nat nat

fun apply_op :: "'raw codec \<Rightarrow> 'raw ENSCache \<Rightarrow> cache_op \<Rightarrow> 'raw ENSCache" where
  "apply_op cd c (CacheSet name type msg now) =
     (case ENSCache_set cd c name type msg now of Inl e \<Rightarrow> c | Inr c' \<Rightarrow> c')"
| "apply_op cd c (CacheGet name type now) = snd (ENSCache_get cd c name type now)"

definition run_ops :: "'raw codec \<Rightarrow> 'raw ENSCache \<Rightarrow> cache_op list \<Rightarrow> 'raw ENSCache" where
  "run_ops cd c ops = foldl (apply_op cd) c ops"

fun keys_set :: "cache_op list \<Rightarrow> string list" where
  "keys_set [] = []"
| "keys_set (CacheSet name type msg now # ops) = toKey name type # keys_set ops"
| "keys_set (CacheGet name type now # ops) = keys_set ops"

text \<open>The entries that a recency list holds under one key, in the order of the list.\<close>

definition entries_of :: "'k \<Rightarrow> ('k \<times> 'v) list \<Rightarrow> ('k \<times> 'v) list" where
  "entries_of k xs = filter (\<lambda>kv. fst kv = k) xs"

text \<open>
  \<open>resolve\<close> is the only writer of the server's cache and stores under the record type TXT
  alone, so every key of that cache ends in the separator and the code of TXT.
\<close>

definition txt_keyed :: "'raw ENSCache \<Rightarrow> bool" where
  "txt_keyed c = list_all (\<lambda>kv. drop (length (fst kv) - 3) (fst kv) = '';16'') (items c)"

section \<open>Sample collaborators and requests\<close>

text \<open>
  Modelled from the spec: the wire-format codec belongs to the DNS library, which is not
  under \<open>src/\<close> and is assumed to be correct. On the wire a string of a text record is
  written behind one byte that holds its length, so it has at most 255 bytes; the encoder
  throws an \<open>EncodingError\<close> on a message with a longer one. \<open>rdata_fits\<close> is that test on
  the data of one record.
\<close>

fun rdata_fits :: "rdata \<Rightarrow> bool" where
  "rdata_fits (TXTRecord txt) = list_all (\<lambda>s. length s \<le> 255) txt"
| "rdata_fits (UNKNOWNRecord d) = True"

text \<open>
  Modelled from the spec: a message has an encoding in the wire format of the DNS library
  when the data of every record of its three record sections fits.
\<close>

definition encodable :: "message \<Rightarrow> bool" where
  "encodable m =
     list_all (\<lambda>r. rdata_fits (rr_data r)) (msg_answer m @ msg_authority m @ msg_additional m)"

text \<open>
  Modelled from the spec: a codec with the failure of the DNS library's encoder and nothing
  else of it. \<open>compress\<close> throws an \<open>EncodingError\<close> on a message that is not encodable
  and otherwise stores the message as it is; \<open>decode\<close> gives the stored message back.
\<close>

definition plain_codec :: "message codec" where
  "plain_codec =
     \<lparr>compress = (\<lambda>m. if encodable m then Inr m else Inl EncodingError),
      decode = (\<lambda>r. r)\<rparr>"

text \<open>
  Concrete inputs at which the theorems below are instantiated: two long names (of 187 and
  of 248 characters, in labels of 60), an address of 42 characters, a registry that knows
  the address of two names and answers \<open>null\<close> for every other, a resolver that answers
  every question with an empty response, a signer that stamps the clock reading into the
  tag, and the server built from them.
\<close>

definition long_label :: string where
  "long_label = replicate 60 CHR ''a'' @ ''.''"

definition long_name :: string where
  "long_name = long_label @ long_label @ long_label @ ''eth.''"

definition longer_name :: string where
  "longer_name = long_label @ long_name"

definition sample_address :: string where
  "sample_address = ''0x314159265dD8dbb310642f98f50C066173C1259b''"

definition sample_registry :: "string \<Rightarrow> error + jsval" where
  "sample_registry n =
     (if n = ''alice.eth'' then Inr (JSString ''0xABCD'')
      else if n = butlast long_name then Inr (JSString sample_address)
      else Inr JSNull)"

text \<open>
  Modelled from the spec: \<open>hsig.sign\<close> belongs to the DNS library, which is not under
  \<open>src/\<close>. Its tag is a signature record over the message made with the key, and the
  record carries the time of signing; \<open>sample_hsig\<close> keeps the three inputs of the tag
  apart instead of signing them.
\<close>

definition sample_hsig :: "string \<Rightarrow> nat \<Rightarrow> nat \<Rightarrow> string \<times> nat \<times> nat" where
  "sample_hsig msg k clock = (msg, k, clock)"

definition sample_hns :: "question \<Rightarrow> error + message" where
  "sample_hns q = Inr (new_Message\<lparr>msg_qr := True, msg_question := [q]\<rparr>)"

definition sample_lookup :: "string \<Rightarrow> nat \<Rightarrow> error + message" where
  "sample_lookup n t = Inr (new_Message\<lparr>msg_qr := True\<rparr>)"

definition sample_server :: "(message, nat) RecursiveServer" where
  "sample_server = RecursiveServer_new 7 sample_hns sample_lookup sample_registry"

definition ask :: "string \<Rightarrow> nat \<Rightarrow> question" where
  "ask n t = \<lparr>q_name = n, q_type = t, q_class = classes_IN\<rparr>"

definition request :: "question list \<Rightarrow> message" where
  "request qs = new_Message\<lparr>msg_id := 4660, msg_question := qs\<rparr>"

section \<open>Lower case and decimal rendering\<close>

lemma toLowerCase_length: "length (toLowerCase s) = length s"
  by (simp add: toLowerCase_def)

lemma digit_char_inj: "a < 10 \<Longrightarrow> b < 10 \<Longrightarrow> digit_char a = digit_char b \<Longrightarrow> a = b"
proof -
  assume a: "a < 10" and b: "b < 10" and e: "digit_char a = digit_char b"
  from e have "(of_char (digit_char a) :: nat) = of_char (digit_char b)" by simp
  with a b show "a = b" by (simp add: digit_char_def)
qed

lemma digit_char_not_sep: "d < 10 \<Longrightarrow> digit_char d \<noteq> CHR '';''"
proof
  assume d: "d < 10" and e: "digit_char d = CHR '';''"
  from e have "(of_char (digit_char d) :: nat) = of_char (CHR '';'')" by simp
  with d show False by (simp add: digit_char_def)
qed

lemma toString10_not_Nil: "toString10 n \<noteq> []"
  by (subst toString10.simps) simp

lemma toString10_no_sep: "CHR '';'' \<notin> set (toString10 n)"
proof (induction n rule: toString10.induct)
  case (1 n)
  show ?case
  proof (cases "n < 10")
    case True
    then show ?thesis
      using digit_char_not_sep [of n] by (subst toString10.simps) auto
  next
    case False
    then show ?thesis
      using 1 digit_char_not_sep [of "n mod 10"] by (subst toString10.simps) auto
  qed
qed

lemma toString10_inj: "toString10 n = toString10 m \<Longrightarrow> n = m"
proof (induction n arbitrary: m rule: toString10.induct)
  case (1 n)
  show ?case
  proof (cases "n < 10")
    case n: True
    show ?thesis
    proof (cases "m < 10")
      case True
      with n "1.prems" show ?thesis
        by (simp add: toString10.simps [of n] toString10.simps [of m] digit_char_inj)
    next
      case False
      with n "1.prems" toString10_not_Nil [of "m div 10"] show ?thesis
        by (simp add: toString10.simps [of n] toString10.simps [of m])
    qed
  next
    case n: False
    show ?thesis
    proof (cases "m < 10")
      case True
      with n "1.prems" toString10_not_Nil [of "n div 10"] show ?thesis
        by (simp add: toString10.simps [of n] toString10.simps [of m])
    next
      case False
      with n "1.prems" have e: "toString10 (n div 10) = toString10 (m div 10)"
        and d: "digit_char (n mod 10) = digit_char (m mod 10)"
        by (simp_all add: toString10.simps [of n] toString10.simps [of m])
      from "1.IH" [OF n e] have "n div 10 = m div 10" .
      moreover from d have "n mod 10 = m mod 10"
        by (rule digit_char_inj [rotated 2]) simp_all
      ultimately show ?thesis
        by (metis div_mult_mod_eq)
    qed
  qed
qed

text \<open>A string is cut in one way only at its first, and at its last, occurrence of a character.\<close>

lemma split_at_first_sep:
  "c \<notin> set us \<Longrightarrow> c \<notin> set us' \<Longrightarrow> us @ c # vs = us' @ c # vs' \<Longrightarrow> us = us' \<and> vs = vs'"
proof (induction us arbitrary: us')
  case Nil
  then show ?case by (cases us') auto
next
  case (Cons u us)
  then show ?case by (cases us') auto
qed

lemma split_at_last_sep:
  assumes "xs @ c # ds = ys @ c # es" and "c \<notin> set ds" and "c \<notin> set es"
  shows "xs = ys \<and> ds = es"
proof -
  from assms(1) have "rev ds @ c # rev xs = rev es @ c # rev ys"
    by (metis rev.simps(2) rev_append append_assoc append_Cons append_Nil)
  moreover have "c \<notin> set (rev ds)" "c \<notin> set (rev es)"
    using assms(2,3) by simp_all
  ultimately have "rev ds = rev es \<and> rev xs = rev ys"
    by (rule split_at_first_sep [rotated 2])
  then show ?thesis by simp
qed

lemma toKey_eq_iff:
  "toKey N T = toKey M T' \<longleftrightarrow> toLowerCase N = toLowerCase M \<and> T = T'"
proof
  assume "toKey N T = toKey M T'"
  then have "toLowerCase N @ CHR '';'' # toString10 T = toLowerCase M @ CHR '';'' # toString10 T'"
    by (simp add: toKey_def)
  from split_at_last_sep [OF this toString10_no_sep toString10_no_sep]
  show "toLowerCase N = toLowerCase M \<and> T = T'"
    by (auto dest: toString10_inj)
next
  assume "toLowerCase N = toLowerCase M \<and> T = T'"
  then show "toKey N T = toKey M T'" by (simp add: toKey_def)
qed

section \<open>The recency list\<close>

lemma map_of_entries_of:
  "map_of xs k = (case entries_of k xs of [] \<Rightarrow> None | kv # _ \<Rightarrow> Some (snd kv))"
  by (induction xs) (auto simp: entries_of_def)

lemma entries_of_removeList:
  "entries_of k (removeList k' xs) = (if k = k' then [] else entries_of k xs)"
  by (induction xs) (auto simp: entries_of_def removeList_def)

lemma entries_of_append: "entries_of k (xs @ ys) = entries_of k xs @ entries_of k ys"
  by (simp add: entries_of_def)

lemma entries_of_single: "entries_of k [(k', v)] = (if k' = k then [(k', v)] else [])"
  by (simp add: entries_of_def)

lemma entries_of_drop: "\<exists>m. entries_of k (drop n xs) = drop m (entries_of k xs)"
proof (induction xs arbitrary: n)
  case Nil
  show ?case by (simp add: entries_of_def)
next
  case (Cons x xs)
  show ?case
  proof (cases n)
    case 0
    then have "entries_of k (drop n (x # xs)) = drop 0 (entries_of k (x # xs))" by simp
    then show ?thesis by blast
  next
    case (Suc n')
    from Cons.IH [of n'] obtain m where m: "entries_of k (drop n' xs) = drop m (entries_of k xs)" ..
    show ?thesis
    proof (cases "fst x = k")
      case True
      with Suc m have "entries_of k (drop n (x # xs)) = drop (Suc m) (entries_of k (x # xs))"
        by (simp add: entries_of_def)
      then show ?thesis by blast
    next
      case False
      with Suc m have "entries_of k (drop n (x # xs)) = drop m (entries_of k (x # xs))"
        by (simp add: entries_of_def)
      then show ?thesis by blast
    qed
  qed
qed

lemma entries_of_compact_cases:
  "entries_of k xs = [] \<or> entries_of k xs = [e] \<Longrightarrow>
   entries_of k (compact cap xs) = [] \<or> entries_of k (compact cap xs) = [e]"
proof -
  assume a: "entries_of k xs = [] \<or> entries_of k xs = [e]"
  obtain m where "entries_of k (compact cap xs) = drop m (entries_of k xs)"
    unfolding compact_def using entries_of_drop [of k "length xs - cap" xs] by blast
  with a show ?thesis by (cases m) auto
qed

lemma compact_snoc:
  "0 < cap \<Longrightarrow> compact cap (xs @ [e]) = drop (Suc (length xs) - cap) xs @ [e]"
  by (simp add: compact_def)

lemma length_compact: "length (compact cap xs) \<le> cap"
  by (simp add: compact_def)

lemma length_removeList: "length (removeList k xs) \<le> length xs"
  by (simp add: removeList_def)

lemma length_removeList_less:
  "map_of xs k = Some v \<Longrightarrow> length (removeList k xs) < length xs"
proof -
  assume "map_of xs k = Some v"
  then have "(k, v) \<in> set xs" by (rule map_of_SomeD)
  then show ?thesis
    unfolding removeList_def by (intro length_filter_less [of "(k, v)"]) simp_all
qed

lemma removeList_absent: "k \<notin> fst ` set xs \<Longrightarrow> removeList k xs = xs"
  by (induction xs) (auto simp: removeList_def)

lemma map_of_removeList:
  "map_of (removeList k xs) k' = (if k' = k then None else map_of xs k')"
  by (induction xs) (auto simp: removeList_def)

lemma map_of_removeList_snoc:
  "map_of xs k = Some v \<Longrightarrow> map_of (removeList k xs @ [(k, v)]) = map_of xs"
  by (rule ext) (auto simp: map_add_def map_of_removeList split: option.splits)

section \<open>Operations of the bounded store\<close>

lemma capacity_LRU_set: "capacity (LRU_set l k v) = capacity l"
  by (simp add: LRU_set_def)

lemma capacity_LRU_get: "capacity (snd (LRU_get l k)) = capacity l"
  by (simp add: LRU_get_def split: option.splits)

lemma length_LRU_set:
  "length (items l) \<le> capacity l \<Longrightarrow> length (items (LRU_set l k v)) \<le> capacity l"
  by (auto simp: LRU_set_def length_compact)

lemma length_LRU_get: "length (items (snd (LRU_get l k))) \<le> length (items l)"
  using length_removeList_less [of "items l" k]
  by (auto simp: LRU_get_def split: option.splits)

lemma map_of_LRU_get: "map_of (items (snd (LRU_get l k))) = map_of (items l)"
  by (simp add: LRU_get_def map_of_removeList_snoc del: map_of_append split: option.splits)

lemma fst_LRU_get:
  "fst (LRU_get l k) = (if capacity l = 0 then None else map_of (items l) k)"
  by (simp add: LRU_get_def split: option.splits)

lemma entries_of_LRU_set_same:
  "0 < capacity l \<Longrightarrow> entries_of k (items (LRU_set l k v)) = [(k, v)]"
proof -
  assume cap: "0 < capacity l"
  let ?ys = "removeList k (items l)"
  have none: "entries_of k (drop n ?ys) = []" for n
    using entries_of_drop [of k n ?ys] by (auto simp: entries_of_removeList)
  from cap show ?thesis
    by (simp add: LRU_set_def compact_snoc entries_of_append entries_of_single none)
qed

lemma entries_of_LRU_set_other:
  assumes "k \<noteq> k'" and "entries_of k (items l) = [] \<or> entries_of k (items l) = [e]"
  shows "entries_of k (items (LRU_set l k' v)) = [] \<or> entries_of k (items (LRU_set l k' v)) = [e]"
proof (cases "capacity l = 0")
  case True
  with assms(2) show ?thesis by (simp add: LRU_set_def)
next
  case False
  from assms have "entries_of k (removeList k' (items l) @ [(k', v)]) = [] \<or>
    entries_of k (removeList k' (items l) @ [(k', v)]) = [e]"
    by (simp add: entries_of_append entries_of_removeList entries_of_single)
  from entries_of_compact_cases [OF this] False show ?thesis
    by (simp add: LRU_set_def)
qed

lemma entries_of_LRU_get:
  assumes "entries_of k (items l) = [] \<or> entries_of k (items l) = [(k, v)]"
  shows "entries_of k (items (snd (LRU_get l k'))) = entries_of k (items l)"
proof (cases "k' = k")
  case True
  with assms show ?thesis
    by (auto simp: LRU_get_def map_of_entries_of [of "items l"] entries_of_append
        entries_of_removeList entries_of_single split: option.splits)
next
  case False
  then show ?thesis
    by (auto simp: LRU_get_def entries_of_append entries_of_removeList entries_of_single
        split: option.splits)
qed

section \<open>Operations of the response cache\<close>

lemma fst_ENSCache_get:
  "fst (ENSCache_get cd c N T now) =
     (case fst (LRU_get c (toKey N T)) of
        None \<Rightarrow> None
      | Some item \<Rightarrow>
          if now > time item + freshness_window then None else Some (decode cd (raw item)))"
  by (simp add: ENSCache_get_def split: prod.splits option.splits)

lemma snd_ENSCache_get: "snd (ENSCache_get cd c N T now) = snd (LRU_get c (toKey N T))"
  by (simp add: ENSCache_get_def split: prod.splits option.splits)

lemma ENSCache_set_Inr:
  "compress cd R = Inr r \<Longrightarrow>
   ENSCache_set cd c N T R now = Inr (LRU_set c (toKey N T) \<lparr>time = now, raw = r\<rparr>)"
  by (simp add: ENSCache_set_def)

lemma ENSCache_set_Inl: "compress cd R = Inl e \<Longrightarrow> ENSCache_set cd c N T R now = Inl e"
  by (simp add: ENSCache_set_def)

lemma ENSCache_set_InrD:
  "ENSCache_set cd c N T R now = Inr c1 \<Longrightarrow>
   \<exists>r. compress cd R = Inr r \<and> c1 = LRU_set c (toKey N T) \<lparr>time = now, raw = r\<rparr>"
  by (auto simp: ENSCache_set_def split: sum.splits)

lemma ENSCache_set_result:
  "compress cd R = Inr r \<Longrightarrow> ENSCache_set cd c N T R now = Inr c1 \<Longrightarrow>
   c1 = LRU_set c (toKey N T) \<lparr>time = now, raw = r\<rparr>"
  by (simp add: ENSCache_set_def)

lemma apply_op_CacheSet:
  "apply_op cd c (CacheSet n t m now) = c \<or>
   (\<exists>e. apply_op cd c (CacheSet n t m now) = LRU_set c (toKey n t) e)"
  by (auto simp: ENSCache_set_def split: sum.splits)

lemma run_ops_Nil: "run_ops cd c [] = c"
  by (simp add: run_ops_def)

lemma run_ops_Cons: "run_ops cd c (x # ops) = run_ops cd (apply_op cd c x) ops"
  by (simp add: run_ops_def)

lemma capacity_apply_op: "capacity (apply_op cd c x) = capacity c"
proof (cases x)
  case (CacheSet n t m now)
  with apply_op_CacheSet [of cd c n t m now] show ?thesis
    by (auto simp: capacity_LRU_set)
next
  case (CacheGet n t now)
  then show ?thesis by (simp add: snd_ENSCache_get capacity_LRU_get)
qed

lemma capacity_run_ops: "capacity (run_ops cd c ops) = capacity c"
  by (induction ops arbitrary: c) (simp_all add: run_ops_Nil run_ops_Cons capacity_apply_op)

lemma length_apply_op:
  "length (items c) \<le> capacity c \<Longrightarrow> length (items (apply_op cd c x)) \<le> capacity c"
proof (cases x)
  case (CacheSet n t m now)
  assume "length (items c) \<le> capacity c"
  with CacheSet apply_op_CacheSet [of cd c n t m now] show ?thesis
    by (auto simp: length_LRU_set)
next
  case (CacheGet n t now)
  assume "length (items c) \<le> capacity c"
  with CacheGet length_LRU_get [of c "toKey n t"] show ?thesis
    by (simp add: snd_ENSCache_get)
qed

lemma length_run_ops:
  "length (items c) \<le> capacity c \<Longrightarrow> length (items (run_ops cd c ops)) \<le> capacity c"
proof (induction ops arbitrary: c)
  case Nil
  then show ?case by (simp add: run_ops_Nil)
next
  case (Cons x ops)
  from Cons.prems have "length (items (apply_op cd c x)) \<le> capacity (apply_op cd c x)"
    by (simp add: length_apply_op capacity_apply_op)
  from Cons.IH [OF this] show ?case
    by (simp add: run_ops_Cons capacity_apply_op)
qed

text \<open>
  Operations that do not write a key leave the entry under it as it is, or evict it.
\<close>

lemma entries_of_apply_op:
  assumes "k \<notin> set (keys_set [x])"
    and "entries_of k (items c) = [] \<or> entries_of k (items c) = [(k, e)]"
  shows "entries_of k (items (apply_op cd c x)) = [] \<or>
         entries_of k (items (apply_op cd c x)) = [(k, e)]"
proof (cases x)
  case (CacheSet n t m now)
  with assms(1) have ne: "k \<noteq> toKey n t" by simp
  from apply_op_CacheSet [of cd c n t m now] show ?thesis
  proof (elim disjE exE)
    assume "apply_op cd c (CacheSet n t m now) = c"
    with assms(2) show ?thesis
      unfolding CacheSet by (simp del: apply_op.simps)
  next
    fix e'
    assume "apply_op cd c (CacheSet n t m now) = LRU_set c (toKey n t) e'"
    with entries_of_LRU_set_other [OF ne assms(2), of e'] show ?thesis
      unfolding CacheSet by (simp del: apply_op.simps)
  qed
next
  case (CacheGet n t now)
  with entries_of_LRU_get [OF assms(2), of "toKey n t"] assms(2) show ?thesis
    by (simp add: snd_ENSCache_get)
qed

lemma keys_set_Cons: "set (keys_set (x # ops)) = set (keys_set [x]) \<union> set (keys_set ops)"
  by (cases x) simp_all

lemma entries_of_run_ops:
  assumes "k \<notin> set (keys_set ops)"
    and "entries_of k (items c) = [] \<or> entries_of k (items c) = [(k, e)]"
  shows "entries_of k (items (run_ops cd c ops)) = [] \<or>
         entries_of k (items (run_ops cd c ops)) = [(k, e)]"
  using assms
proof (induction ops arbitrary: c)
  case Nil
  then show ?case by (simp add: run_ops_Nil)
next
  case (Cons x ops)
  from Cons.prems(1) have x: "k \<notin> set (keys_set [x])" and r: "k \<notin> set (keys_set ops)"
    by (simp_all add: keys_set_Cons [of x ops])
  from Cons.IH [OF r entries_of_apply_op [OF x Cons.prems(2)]] show ?case
    by (simp add: run_ops_Cons)
qed

lemma map_of_run_ops_cases:
  assumes "k \<notin> set (keys_set ops)"
    and "entries_of k (items c) = [] \<or> entries_of k (items c) = [(k, e)]"
  shows "map_of (items (run_ops cd c ops)) k = None \<or>
         map_of (items (run_ops cd c ops)) k = Some e"
  using entries_of_run_ops [OF assms, of cd]
  by (auto simp: map_of_entries_of [of "items (run_ops cd c ops)"])

section \<open>Reading after writing\<close>

text \<open>
  C5: for all names N and types T, a \<open>get(N, T)\<close> after \<open>set(N, T, R)\<close> returns a response
  that decodes from the stored encoding to the content of R, provided at most six hours
  passed between the two and the entry was not evicted in between. The \<open>set\<close> has returned
  (it stored the encoding \<open>r\<close> of R and left the cache \<open>c1\<close>); the history between the two
  calls is any sequence of reads and of writes under other keys; the codec is assumed to
  decode what it compressed.
\<close>

theorem cache_get_after_set:
  assumes "0 < capacity c"
    and "compress cd R = Inr r" and "decode cd r = R"
    and "ENSCache_set cd c N T R t0 = Inr c1"
    and "toKey N T \<notin> set (keys_set ops)"
    and "map_of (items (run_ops cd c1 ops)) (toKey N T) \<noteq> None"
    and "now \<le> t0 + freshness_window"
  shows "fst (ENSCache_get cd (run_ops cd c1 ops) N T now) = Some R"
proof -
  let ?e = "\<lparr>time = t0, raw = r\<rparr>"
  let ?c = "run_ops cd c1 ops"
  from assms(2,4) have c1: "c1 = LRU_set c (toKey N T) ?e"
    by (simp add: ENSCache_set_Inr)
  have "entries_of (toKey N T) (items c1) = [(toKey N T, ?e)]"
    using assms(1) by (simp add: c1 entries_of_LRU_set_same)
  then have "map_of (items ?c) (toKey N T) = None \<or> map_of (items ?c) (toKey N T) = Some ?e"
    by (intro map_of_run_ops_cases [OF assms(5)]) simp
  with assms(6) have "map_of (items ?c) (toKey N T) = Some ?e" by auto
  moreover have "0 < capacity ?c"
    using assms(1) by (simp add: capacity_run_ops c1 capacity_LRU_set)
  ultimately show ?thesis
    using assms(3,7) by (simp add: fst_ENSCache_get fst_LRU_get)
qed

lemma sample_toKey_alice: "toKey ''alice.eth.'' types_TXT = ''alice.eth.;16''"
  by code_simp

lemma sample_toKey_bob: "toKey ''bob.eth.'' types_TXT = ''bob.eth.;16''"
  by code_simp

lemma sample_encodable: "compress plain_codec (request qs) = Inr (request qs)"
  by (simp add: plain_codec_def encodable_def request_def new_Message_def)

lemma sample_decode: "decode plain_codec r = r"
  by (simp add: plain_codec_def)

lemma sample_set_alice:
  "ENSCache_set plain_codec (ENSCache_new cap) ''alice.eth.'' types_TXT (request []) 1000
     = Inr (LRU_set (ENSCache_new cap) ''alice.eth.;16'' \<lparr>time = 1000, raw = request []\<rparr>)"
  by (simp add: ENSCache_set_Inr [OF sample_encodable] sample_toKey_alice)

lemmas sample_cache_defs =
  run_ops_def ENSCache_set_def ENSCache_get_def ENSCache_new_def LRU_new_def LRU_set_def
  LRU_get_def compact_def removeList_def Let_def freshness_window_def sample_encodable

theorem cache_get_after_set_witness:
  "fst (ENSCache_get plain_codec
     (run_ops plain_codec (ENSCache_new 2)
        [CacheSet ''alice.eth.'' types_TXT (request []) 1000,
         CacheSet ''bob.eth.'' types_TXT (request []) 2000,
         CacheGet ''alice.eth.'' types_TXT 3000])
     ''alice.eth.'' types_TXT 21601000) = Some (request [])"
proof -
  let ?c1 = "LRU_set (ENSCache_new 2) ''alice.eth.;16'' \<lparr>time = 1000, raw = request []\<rparr>"
  let ?ops = "[CacheSet ''bob.eth.'' types_TXT (request []) 2000,
               CacheGet ''alice.eth.'' types_TXT 3000]"
  have 1: "0 < capacity (ENSCache_new 2 :: message ENSCache)"
    by (simp add: ENSCache_new_def LRU_new_def)
  have 2: "compress plain_codec (request []) = Inr (request [])"
    by (rule sample_encodable)
  have 3: "decode plain_codec (request []) = request []"
    by (simp add: plain_codec_def)
  have 4: "ENSCache_set plain_codec (ENSCache_new 2) ''alice.eth.'' types_TXT (request []) 1000
      = Inr ?c1"
    by (rule sample_set_alice)
  have 5: "toKey ''alice.eth.'' types_TXT \<notin> set (keys_set ?ops)"
    by (simp add: sample_toKey_alice sample_toKey_bob)
  have 6: "map_of (items (run_ops plain_codec ?c1 ?ops)) (toKey ''alice.eth.'' types_TXT) \<noteq> None"
    by (simp add: sample_cache_defs sample_toKey_alice sample_toKey_bob)
  have 7: "(21601000 :: nat) \<le> 1000 + freshness_window"
    by (simp add: freshness_window_def)
  from cache_get_after_set [OF 1 2 3 4 5 6 7] show ?thesis
    by (simp add: run_ops_Cons 4)
qed

section \<open>Absent and stale keys\<close>

lemma ENSCache_get_stale_or_gone:
  assumes "map_of (items c) (toKey N T) = None \<or>
           (\<exists>item. map_of (items c) (toKey N T) = Some item \<and> time item + freshness_window < now)"
  shows "fst (ENSCache_get cd c N T now) = None"
  using assms by (auto simp: fst_ENSCache_get fst_LRU_get)

lemma map_of_ENSCache_get: "map_of (items (snd (ENSCache_get cd c N T now))) = map_of (items c)"
  by (simp add: snd_ENSCache_get map_of_LRU_get)

lemma capacity_ENSCache_get: "capacity (snd (ENSCache_get cd c N T now)) = capacity c"
  by (simp add: snd_ENSCache_get capacity_LRU_get)

lemma entries_of_compact_gone:
  "entries_of k xs = [] \<Longrightarrow> entries_of k (compact cap xs) = []"
  using entries_of_drop [of k "length xs - cap" xs] by (auto simp: compact_def)

lemma entries_of_apply_op_gone:
  assumes "k \<notin> set (keys_set [x])" and "entries_of k (items c) = []"
  shows "entries_of k (items (apply_op cd c x)) = []"
proof (cases x)
  case (CacheSet n t m now)
  with assms(1) have "k \<noteq> toKey n t" by simp
  with assms(2) have "entries_of k (removeList (toKey n t) (items c) @ [(toKey n t, e)]) = []" for e
    by (simp add: entries_of_append entries_of_removeList entries_of_single)
  from entries_of_compact_gone [OF this] assms(2) CacheSet apply_op_CacheSet [of cd c n t m now]
  show ?thesis by (auto simp: LRU_set_def)
next
  case (CacheGet n t now)
  from assms(2) have "entries_of k (items c) = [] \<or> entries_of k (items c) = [(k, undefined)]"
    by simp
  from entries_of_LRU_get [OF this, of "toKey n t"] assms(2) CacheGet show ?thesis
    by (simp add: snd_ENSCache_get)
qed

lemma entries_of_run_ops_gone:
  assumes "k \<notin> set (keys_set ops)" and "entries_of k (items c) = []"
  shows "entries_of k (items (run_ops cd c ops)) = []"
  using assms
proof (induction ops arbitrary: c)
  case Nil
  then show ?case by (simp add: run_ops_Nil)
next
  case (Cons x ops)
  from Cons.prems(1) have x: "k \<notin> set (keys_set [x])" and r: "k \<notin> set (keys_set ops)"
    by (simp_all add: keys_set_Cons [of x ops])
  from Cons.IH [OF r entries_of_apply_op_gone [OF x Cons.prems(2)]] show ?case
    by (simp add: run_ops_Cons)
qed

lemma get_never_set:
  assumes "toKey N T \<notin> set (keys_set ops)"
  shows "fst (ENSCache_get cd (run_ops cd (ENSCache_new cap) ops) N T now) = None"
proof -
  have "entries_of (toKey N T) (items (ENSCache_new cap :: 'a ENSCache)) = []"
    by (simp add: ENSCache_new_def LRU_new_def entries_of_def)
  from entries_of_run_ops_gone [OF assms this, of cd]
  have "map_of (items (run_ops cd (ENSCache_new cap) ops)) (toKey N T) = None"
    by (simp add: map_of_entries_of [of "items (run_ops cd (ENSCache_new cap) ops)"])
  then show ?thesis by (simp add: ENSCache_get_stale_or_gone)
qed

lemma get_stale:
  assumes "toKey N T \<notin> set (keys_set ops)" and "t0 + freshness_window < now"
    and "ENSCache_set cd c N T R t0 = Inr c1"
  shows "fst (ENSCache_get cd (run_ops cd c1 ops) N T now) = None"
proof -
  from ENSCache_set_InrD [OF assms(3)] obtain r
    where c1: "c1 = LRU_set c (toKey N T) \<lparr>time = t0, raw = r\<rparr>" by blast
  let ?e = "\<lparr>time = t0, raw = r\<rparr>"
  let ?c = "run_ops cd c1 ops"
  show ?thesis
  proof (cases "capacity c = 0")
    case True
    then have "capacity ?c = 0"
      by (simp add: capacity_run_ops c1 capacity_LRU_set)
    then show ?thesis by (simp add: fst_ENSCache_get fst_LRU_get)
  next
    case False
    then have "entries_of (toKey N T) (items c1) = [(toKey N T, ?e)]"
      by (simp add: c1 entries_of_LRU_set_same)
    then have "map_of (items ?c) (toKey N T) = None \<or> map_of (items ?c) (toKey N T) = Some ?e"
      by (intro map_of_run_ops_cases [OF assms(1)]) simp
    with assms(2) show ?thesis
      by (intro ENSCache_get_stale_or_gone) auto
  qed
qed

text \<open>
  C6, as amended: \<open>get(N, T)\<close> returns absent for a key that was never set, and absent again
  once more than six hours have passed since the most recent \<open>set\<close> for that key (which
  returned and left the cache \<open>c1\<close>), whatever reads (and writes under other keys) came in
  between; \<open>get\<close> itself removes nothing from the bounded store, whose contents and capacity
  it leaves as they are.
\<close>

theorem cache_get_absent:
  "(toKey N T \<notin> set (keys_set ops) \<longrightarrow>
      fst (ENSCache_get cd (run_ops cd (ENSCache_new cap) ops) N T now) = None) \<and>
   (toKey N T \<notin> set (keys_set ops) \<and> t0 + freshness_window < now \<and>
    ENSCache_set cd c N T R t0 = Inr c1 \<longrightarrow>
      fst (ENSCache_get cd (run_ops cd c1 ops) N T now) = None) \<and>
   map_of (items (snd (ENSCache_get cd c N T now))) = map_of (items c) \<and>
   capacity (snd (ENSCache_get cd c N T now)) = capacity c"
proof (intro conjI impI)
  assume "toKey N T \<notin> set (keys_set ops)"
  then show "fst (ENSCache_get cd (run_ops cd (ENSCache_new cap) ops) N T now) = None"
    by (rule get_never_set)
next
  assume "toKey N T \<notin> set (keys_set ops) \<and> t0 + freshness_window < now \<and>
    ENSCache_set cd c N T R t0 = Inr c1"
  then show "fst (ENSCache_get cd (run_ops cd c1 ops) N T now) = None"
    by (elim conjE) (rule get_stale)
next
  show "map_of (items (snd (ENSCache_get cd c N T now))) = map_of (items c)"
    by (rule map_of_ENSCache_get)
next
  show "capacity (snd (ENSCache_get cd c N T now)) = capacity c"
    by (rule capacity_ENSCache_get)
qed

theorem cache_get_absent_witness:
  "fst (ENSCache_get plain_codec
     (run_ops plain_codec (ENSCache_new 2) [CacheSet ''bob.eth.'' types_TXT (request []) 2000])
     ''alice.eth.'' types_TXT 3000) = None \<and>
   fst (ENSCache_get plain_codec
     (run_ops plain_codec (ENSCache_new 2)
        [CacheSet ''alice.eth.'' types_TXT (request []) 1000,
         CacheGet ''alice.eth.'' types_TXT 2000])
     ''alice.eth.'' types_TXT 21601001) = None \<and>
   map_of (items (snd (ENSCache_get plain_codec
        (run_ops plain_codec (ENSCache_new 2)
           [CacheSet ''alice.eth.'' types_TXT (request []) 1000])
        ''alice.eth.'' types_TXT 21601001))) ''alice.eth.;16''
     = Some \<lparr>time = 1000, raw = request []\<rparr>"
proof -
  let ?c1 = "LRU_set (ENSCache_new 2) ''alice.eth.;16'' \<lparr>time = 1000, raw = request []\<rparr>"
  have 1: "toKey ''alice.eth.'' types_TXT \<notin>
      set (keys_set [CacheSet ''bob.eth.'' types_TXT (request []) 2000])"
    by (simp add: sample_toKey_alice sample_toKey_bob)
  have 2: "toKey ''alice.eth.'' types_TXT \<notin> set (keys_set [CacheGet ''alice.eth.'' types_TXT 2000])"
    by simp
  have 3: "(1000 :: nat) + freshness_window < 21601001"
    by (simp add: freshness_window_def)
  have 4: "ENSCache_set plain_codec (ENSCache_new 2) ''alice.eth.'' types_TXT (request []) 1000
      = Inr ?c1"
    by (rule sample_set_alice)
  have 5: "map_of (items ?c1) ''alice.eth.;16'' = Some \<lparr>time = 1000, raw = request []\<rparr>"
    by (simp add: sample_cache_defs)
  from cache_get_absent [where N = "''alice.eth.''" and T = types_TXT and cd = plain_codec
      and ops = "[CacheSet ''bob.eth.'' types_TXT (request []) 2000]" and cap = 2 and now = 3000]
    cache_get_absent [where N = "''alice.eth.''" and T = types_TXT and cd = plain_codec
      and ops = "[CacheGet ''alice.eth.'' types_TXT 2000]" and ?t0.0 = 1000 and now = 21601001
      and c = "ENSCache_new 2" and R = "request []" and ?c1.0 = ?c1]
    cache_get_absent [where N = "''alice.eth.''" and T = types_TXT and cd = plain_codec
      and now = 21601001 and c = ?c1]
    1 2 3 4 5
  show ?thesis by (simp add: run_ops_Cons run_ops_Nil)
qed

theorem cache_get_six_hours_counterexample:
  "fst (ENSCache_get plain_codec
     (run_ops plain_codec (ENSCache_new 500)
        [CacheSet ''alice.eth.'' types_TXT (request []) 1000])
     ''alice.eth.'' types_TXT (1000 + 6 * 60 * 60 * 1000)) = Some (request [])"
  by (simp add: sample_cache_defs sample_toKey_alice sample_decode)

section \<open>Case and record type in the key\<close>

lemma entries_of_Nil_iff: "entries_of k xs = [] \<longleftrightarrow> k \<notin> fst ` set xs"
  by (auto simp: entries_of_def filter_empty_conv)

lemma LRU_set_keeps_previous:
  assumes "k \<noteq> k'" and "2 \<le> capacity l"
  shows "map_of (items (LRU_set (LRU_set l k v) k' v')) k = Some v"
proof -
  let ?ys = "removeList k (items l)"
  let ?a = "Suc (length ?ys) - capacity l"
  let ?ws = "removeList k' (drop ?a ?ys)"
  let ?l1 = "LRU_set l k v"
  from assms(2) have cap: "0 < capacity l" by simp
  then have items1: "items ?l1 = drop ?a ?ys @ [(k, v)]"
    by (simp add: LRU_set_def compact_snoc)
  with assms(1) have rm: "removeList k' (items ?l1) = ?ws @ [(k, v)]"
    by (simp add: removeList_def)
  have "items (LRU_set ?l1 k' v') = compact (capacity l) (?ws @ [(k, v), (k', v')])"
    using cap by (simp add: LRU_set_def [of ?l1] capacity_LRU_set rm)
  moreover have "(k, v) \<in> set (compact (capacity l) (?ws @ [(k, v), (k', v')]))"
    using assms(2) by (simp add: compact_def)
  ultimately have "(k, v) \<in> set (items (LRU_set ?l1 k' v'))" by simp
  then have "entries_of k (items (LRU_set ?l1 k' v')) \<noteq> []"
    by (force simp: entries_of_Nil_iff)
  moreover have "entries_of k (items ?l1) = [] \<or> entries_of k (items ?l1) = [(k, v)]"
    using cap by (simp add: entries_of_LRU_set_same)
  from entries_of_LRU_set_other [OF assms(1) this]
  have "entries_of k (items (LRU_set ?l1 k' v')) = [] \<or>
        entries_of k (items (LRU_set ?l1 k' v')) = [(k, v)]" .
  ultimately have "entries_of k (items (LRU_set ?l1 k' v')) = [(k, v)]" by blast
  then show ?thesis
    by (simp add: map_of_entries_of [of "items (LRU_set ?l1 k' v')"])
qed

lemma map_of_LRU_set_same: "0 < capacity l \<Longrightarrow> map_of (items (LRU_set l k v)) k = Some v"
  by (simp add: map_of_entries_of [of "items (LRU_set l k v)"] entries_of_LRU_set_same)

lemma get_after_set_same_key:
  assumes "toKey M T' = toKey N T" and "0 < capacity c" and "now \<le> t0 + freshness_window"
    and "compress cd R = Inr r" and "ENSCache_set cd c N T R t0 = Inr c1"
  shows "fst (ENSCache_get cd c1 M T' now) = Some (decode cd r)"
proof -
  from assms(4,5) have "c1 = LRU_set c (toKey N T) \<lparr>time = t0, raw = r\<rparr>"
    by (simp add: ENSCache_set_Inr)
  with assms(1-3) show ?thesis
    by (simp add: fst_ENSCache_get fst_LRU_get capacity_LRU_set map_of_LRU_set_same)
qed

text \<open>
  C7: cache keys are case-insensitive in the name and specific to the record type. A
  \<open>get(M, T)\<close> after a \<open>set(N, T, R)\<close> that returned (it stored the encoding \<open>r\<close> of R and
  left the cache \<open>c1\<close>) is a hit whenever M and N have the same lower case; two keys are
  equal exactly when the names agree up to case and the types are equal; and entries whose
  keys differ in type, or in name other than by case, do not share an entry: written one
  after the other into a cache with room for two, both are stored, each with its own
  response.
\<close>

theorem cache_key_case_and_type:
  "(toLowerCase N = toLowerCase M \<and> 0 < capacity c \<and> now \<le> t0 + freshness_window \<and>
    compress cd R = Inr r \<and> ENSCache_set cd c N T R t0 = Inr c1 \<longrightarrow>
      fst (ENSCache_get cd c1 M T now) = Some (decode cd r)) \<and>
   (toKey N T = toKey M T' \<longleftrightarrow> toLowerCase N = toLowerCase M \<and> T = T') \<and>
   (\<not> (toLowerCase N = toLowerCase M \<and> T = T') \<and> 2 \<le> capacity c \<and>
    compress cd R = Inr r \<and> compress cd R' = Inr r' \<and>
    ENSCache_set cd c N T R t0 = Inr c1 \<and> ENSCache_set cd c1 M T' R' t1 = Inr c2 \<longrightarrow>
      map_of (items c2) (toKey N T) = Some \<lparr>time = t0, raw = r\<rparr> \<and>
      map_of (items c2) (toKey M T') = Some \<lparr>time = t1, raw = r'\<rparr>)"
proof (intro conjI impI)
  assume a: "toLowerCase N = toLowerCase M \<and> 0 < capacity c \<and> now \<le> t0 + freshness_window \<and>
    compress cd R = Inr r \<and> ENSCache_set cd c N T R t0 = Inr c1"
  then have k: "toKey M T = toKey N T" by (simp add: toKey_eq_iff)
  from a have "0 < capacity c" and "now \<le> t0 + freshness_window"
    and "compress cd R = Inr r" and "ENSCache_set cd c N T R t0 = Inr c1"
    by simp_all
  with k show "fst (ENSCache_get cd c1 M T now) = Some (decode cd r)"
    by (rule get_after_set_same_key)
next
  show "toKey N T = toKey M T' \<longleftrightarrow> toLowerCase N = toLowerCase M \<and> T = T'"
    by (rule toKey_eq_iff)
next
  assume a: "\<not> (toLowerCase N = toLowerCase M \<and> T = T') \<and> 2 \<le> capacity c \<and>
    compress cd R = Inr r \<and> compress cd R' = Inr r' \<and>
    ENSCache_set cd c N T R t0 = Inr c1 \<and> ENSCache_set cd c1 M T' R' t1 = Inr c2"
  then have k: "toKey N T \<noteq> toKey M T'" by (simp add: toKey_eq_iff)
  from a have r: "compress cd R = Inr r" and r': "compress cd R' = Inr r'"
    and s: "ENSCache_set cd c N T R t0 = Inr c1" and s': "ENSCache_set cd c1 M T' R' t1 = Inr c2"
    by simp_all
  have c2: "c2 = LRU_set (LRU_set c (toKey N T) \<lparr>time = t0, raw = r\<rparr>)
      (toKey M T') \<lparr>time = t1, raw = r'\<rparr>"
    using ENSCache_set_result [OF r s] ENSCache_set_result [OF r' s'] by simp
  from a k show "map_of (items c2) (toKey N T) = Some \<lparr>time = t0, raw = r\<rparr>"
    by (simp add: c2 LRU_set_keeps_previous)
  from a show "map_of (items c2) (toKey M T') = Some \<lparr>time = t1, raw = r'\<rparr>"
    by (simp add: c2 map_of_LRU_set_same capacity_LRU_set)
qed

lemma sample_lower_example: "toLowerCase ''example.eth.'' = toLowerCase ''Example.ETH.''"
  by code_simp

lemma sample_lower_other: "toLowerCase ''example.eth.'' \<noteq> toLowerCase ''example.com.''"
  by code_simp

theorem cache_key_case_and_type_witness:
  "fst (ENSCache_get plain_codec
     (run_ops plain_codec (ENSCache_new 500)
        [CacheSet ''example.eth.'' types_TXT (request []) 1000])
     ''Example.ETH.'' types_TXT 2000) = Some (request []) \<and>
   toKey ''example.eth.'' types_TXT = toKey ''Example.ETH.'' types_TXT \<and>
   toKey ''example.eth.'' 16 \<noteq> toKey ''example.eth.'' 28 \<and>
   toKey ''example.eth.'' 16 \<noteq> toKey ''example.com.'' 16 \<and>
   map_of (items (run_ops plain_codec (ENSCache_new 500)
       [CacheSet ''example.eth.'' 16 (request []) 1000,
        CacheSet ''example.eth.'' 28 (request [ask ''example.eth.'' 28]) 2000]))
     (toKey ''example.eth.'' 16)
     = Some \<lparr>time = 1000, raw = request []\<rparr>"
proof -
  let ?c0 = "ENSCache_new 500 :: message ENSCache"
  let ?ct = "LRU_set ?c0 (toKey ''example.eth.'' types_TXT) \<lparr>time = 1000, raw = request []\<rparr>"
  let ?c1 = "LRU_set ?c0 (toKey ''example.eth.'' 16) \<lparr>time = 1000, raw = request []\<rparr>"
  let ?c2 = "LRU_set ?c1 (toKey ''example.eth.'' 28)
      \<lparr>time = 2000, raw = request [ask ''example.eth.'' 28]\<rparr>"
  have cap: "0 < capacity ?c0" "2 \<le> capacity ?c0"
    by (simp_all add: ENSCache_new_def LRU_new_def)
  have fresh: "(2000 :: nat) \<le> 1000 + freshness_window"
    by (simp add: freshness_window_def)
  note sets = ENSCache_set_Inr [OF sample_encodable]
  have run1: "run_ops plain_codec ?c0 [CacheSet ''example.eth.'' types_TXT (request []) 1000] = ?ct"
    by (simp add: run_ops_Cons run_ops_Nil sets)
  have run2: "run_ops plain_codec ?c0
       [CacheSet ''example.eth.'' 16 (request []) 1000,
        CacheSet ''example.eth.'' 28 (request [ask ''example.eth.'' 28]) 2000] = ?c2"
    by (simp add: run_ops_Cons run_ops_Nil sets)
  note same = cache_key_case_and_type [where N = "''example.eth.''" and M = "''Example.ETH.''"
      and T = types_TXT and T' = types_TXT and c = ?c0 and cd = plain_codec
      and now = 2000 and ?t0.0 = 1000 and R = "request []" and r = "request []"
      and ?c1.0 = ?ct]
  note types = cache_key_case_and_type [where N = "''example.eth.''" and M = "''example.eth.''"
      and T = 16 and T' = 28 and c = ?c0 and cd = plain_codec
      and ?t0.0 = 1000 and ?t1.0 = 2000 and R = "request []"
      and r = "request []" and R' = "request [ask ''example.eth.'' 28]"
      and r' = "request [ask ''example.eth.'' 28]" and ?c1.0 = ?c1 and ?c2.0 = ?c2]
  note names = cache_key_case_and_type [where N = "''example.eth.''" and M = "''example.com.''"
      and T = 16 and T' = 16]
  have "fst (ENSCache_get plain_codec ?ct ''Example.ETH.'' types_TXT 2000)
      = Some (decode plain_codec (request []))"
    by (rule same [THEN conjunct1, THEN mp])
      (simp add: cap fresh sample_encodable sets sample_lower_example)
  then have A: "fst (ENSCache_get plain_codec ?ct ''Example.ETH.'' types_TXT 2000)
      = Some (request [])"
    by (simp add: sample_decode)
  have B: "toKey ''example.eth.'' types_TXT = toKey ''Example.ETH.'' types_TXT"
    by (simp add: same [THEN conjunct2, THEN conjunct1] sample_lower_example)
  have C: "toKey ''example.eth.'' 16 \<noteq> toKey ''example.eth.'' 28"
    by (simp add: types [THEN conjunct2, THEN conjunct1])
  have D: "toKey ''example.eth.'' 16 \<noteq> toKey ''example.com.'' 16"
    by (simp add: names [THEN conjunct2, THEN conjunct1] sample_lower_other)
  have E: "map_of (items ?c2) (toKey ''example.eth.'' 16) = Some \<lparr>time = 1000, raw = request []\<rparr>"
    by (rule types [THEN conjunct2, THEN conjunct2, THEN mp, THEN conjunct1])
      (simp add: cap sample_encodable sets)
  show ?thesis
    unfolding run1 run2 by (intro conjI A B C D E)
qed

section \<open>Capacity and eviction\<close>

lemma LRU_set_full:
  assumes "0 < capacity l" and "length (items l) = capacity l" and "k \<notin> fst ` set (items l)"
  shows "items (LRU_set l k v) = tl (items l) @ [(k, v)]"
proof -
  from assms(1,2) have "items l \<noteq> []" by auto
  then have "drop (Suc 0) (items l @ [(k, v)]) = tl (items l) @ [(k, v)]"
    by (cases "items l") simp_all
  with assms show ?thesis
    by (simp add: LRU_set_def compact_def removeList_absent)
qed

text \<open>
  C8: the number of entries of the cache never exceeds its configured capacity, whatever
  sequence of \<open>set\<close> and \<open>get\<close> calls it has seen; the server configures the capacity 500;
  and writing a key that is not stored into a full cache (the 501st distinct key when the
  capacity is 500) evicts exactly one entry, the least recently used one at the head of the
  recency list, and appends the new entry.
\<close>

theorem cache_capacity_bound:
  "length (items (run_ops (cd :: 'raw codec) (ENSCache_new cap) ops)) \<le> cap \<and>
   capacity (run_ops cd (ENSCache_new cap) ops) = cap \<and>
   capacity (cache (RecursiveServer_new k hr hl er :: ('raw, 'key) RecursiveServer)) = 500 \<and>
   (0 < capacity c \<and> length (items c) = capacity c \<and> toKey N T \<notin> fst ` set (items c) \<and>
    compress cd R = Inr r \<and> ENSCache_set cd c N T R now = Inr c1 \<longrightarrow>
      items c1 = tl (items c) @ [(toKey N T, \<lparr>time = now, raw = r\<rparr>)])"
proof (intro conjI impI)
  have "length (items (ENSCache_new cap :: 'a ENSCache)) \<le> capacity (ENSCache_new cap :: 'a ENSCache)"
    by (simp add: ENSCache_new_def LRU_new_def)
  from length_run_ops [OF this, of cd ops]
  show "length (items (run_ops cd (ENSCache_new cap) ops)) \<le> cap"
    by (simp add: ENSCache_new_def LRU_new_def)
next
  show "capacity (run_ops cd (ENSCache_new cap) ops) = cap"
    by (simp add: capacity_run_ops ENSCache_new_def LRU_new_def)
next
  show "capacity (cache (RecursiveServer_new k hr hl er :: ('raw, 'key) RecursiveServer)) = 500"
    by (simp add: RecursiveServer_new_def ENSCache_new_def LRU_new_def)
next
  assume a: "0 < capacity c \<and> length (items c) = capacity c \<and> toKey N T \<notin> fst ` set (items c) \<and>
    compress cd R = Inr r \<and> ENSCache_set cd c N T R now = Inr c1"
  then have "c1 = LRU_set c (toKey N T) \<lparr>time = now, raw = r\<rparr>"
    by (elim conjE) (rule ENSCache_set_result)
  with a show "items c1 = tl (items c) @ [(toKey N T, \<lparr>time = now, raw = r\<rparr>)]"
    by (simp add: LRU_set_full)
qed

lemma sample_toKey_carol: "toKey ''carol.eth.'' types_TXT = ''carol.eth.;16''"
  by code_simp

theorem cache_capacity_bound_witness:
  "length (items (run_ops plain_codec (ENSCache_new 2)
      [CacheSet ''alice.eth.'' types_TXT (request []) 1000,
       CacheSet ''bob.eth.'' types_TXT (request []) 2000,
       CacheGet ''alice.eth.'' types_TXT 3000,
       CacheSet ''carol.eth.'' types_TXT (request []) 4000])) \<le> 2 \<and>
   capacity (cache sample_server) = 500 \<and>
   items (run_ops plain_codec (ENSCache_new 2)
        [CacheSet ''alice.eth.'' types_TXT (request []) 1000,
         CacheSet ''bob.eth.'' types_TXT (request []) 2000,
         CacheSet ''carol.eth.'' types_TXT (request []) 4000])
     = [(''bob.eth.;16'', \<lparr>time = 2000, raw = request []\<rparr>),
        (''carol.eth.;16'', \<lparr>time = 4000, raw = request []\<rparr>)]"
proof -
  let ?c = "run_ops plain_codec (ENSCache_new 2)
        [CacheSet ''alice.eth.'' types_TXT (request []) 1000,
         CacheSet ''bob.eth.'' types_TXT (request []) 2000]"
  let ?c1 = "LRU_set ?c (toKey ''carol.eth.'' types_TXT) \<lparr>time = 4000, raw = request []\<rparr>"
  have c: "?c = \<lparr>capacity = 2, items = [(''alice.eth.;16'', \<lparr>time = 1000, raw = request []\<rparr>),
      (''bob.eth.;16'', \<lparr>time = 2000, raw = request []\<rparr>)]\<rparr>"
    by (simp add: sample_cache_defs sample_toKey_alice sample_toKey_bob)
  have full: "0 < capacity ?c \<and> length (items ?c) = capacity ?c \<and>
      toKey ''carol.eth.'' types_TXT \<notin> fst ` set (items ?c)"
    unfolding c by (simp add: sample_toKey_carol)
  have set: "ENSCache_set plain_codec ?c ''carol.eth.'' types_TXT (request []) 4000 = Inr ?c1"
    by (rule ENSCache_set_Inr [OF sample_encodable])
  have run: "run_ops plain_codec (ENSCache_new 2)
        [CacheSet ''alice.eth.'' types_TXT (request []) 1000,
         CacheSet ''bob.eth.'' types_TXT (request []) 2000,
         CacheSet ''carol.eth.'' types_TXT (request []) 4000] = ?c1"
    using set by (simp add: run_ops_def)
  from cache_capacity_bound [where cd = plain_codec and cap = 2 and c = ?c
      and N = "''carol.eth.''" and T = types_TXT and R = "request []" and r = "request []"
      and now = 4000 and ?c1.0 = ?c1
      and k = "7 :: nat" and hr = sample_hns and hl = sample_lookup and er = sample_registry
      and ops = "[CacheSet ''alice.eth.'' types_TXT (request []) 1000,
       CacheSet ''bob.eth.'' types_TXT (request []) 2000,
       CacheGet ''alice.eth.'' types_TXT 3000,
       CacheSet ''carol.eth.'' types_TXT (request []) 4000]"] full set
  show ?thesis
    unfolding run by (simp add: c sample_server_def sample_toKey_carol sample_encodable)
qed

section \<open>Names and labels\<close>

lemma slice_butlast: "slice s 0 (int (length s) - 1) = butlast s"
  by (cases "s = []") (auto simp: slice_def Let_def butlast_conv_take nat_diff_distrib')

lemma top_label_closing_dot:
  assumes "util_from n (util_split n) (- 1) = ''eth.''"
  shows "n \<noteq> [] \<and> last n = CHR ''.''"
proof (cases "n = ''.''")
  case True
  then show ?thesis by simp
next
  case False
  let ?ls = "util_split n"
  from False have len: "0 < length ?ls" by (simp add: util_split_def)
  with assms have d: "drop (?ls ! (length ?ls - 1)) n = ''eth.''"
    by (simp add: util_from_def Let_def nat_diff_distrib' split: if_splits)
  then have "n \<noteq> []" by auto
  moreover from d have "last n = last ''eth.''"
    by (metis last_drop drop_eq_Nil not_le list.distinct(1))
  ultimately show ?thesis by simp
qed

lemma top_label_bare_name:
  assumes "util_from n (util_split n) (- 1) = ''eth.''"
  shows "butlast n @ ''.'' = n"
  using top_label_closing_dot [OF assms] append_butlast_last_id [of n] by simp

section \<open>The branches of resolve\<close>

lemma resolve_no_question:
  "msg_question req = [] \<Longrightarrow> resolve cd srv req now later = (Inl TypeError, srv, [])"
  by (simp add: resolve_def)

lemma resolve_delegate:
  assumes "msg_question req = qs # rest"
    and "util_from (q_name qs) (util_split (q_name qs)) (- 1) \<noteq> ''eth.''"
  shows "resolve cd srv req now later = (hns_resolve srv qs, srv, [HnsResolve qs])"
  using assms by (simp add: resolve_def Let_def)

lemma resolve_hit:
  assumes "msg_question req = qs # rest"
    and "util_from (q_name qs) (util_split (q_name qs)) (- 1) = ''eth.''"
    and "fst (ENSCache_get cd (cache srv) (q_name qs) types_TXT now) = Some m"
  shows "resolve cd srv req now later =
    (Inr m, srv\<lparr>cache := snd (ENSCache_get cd (cache srv) (q_name qs) types_TXT now)\<rparr>, [])"
proof (cases "ENSCache_get cd (cache srv) (q_name qs) types_TXT now")
  case (Pair r c1)
  with assms show ?thesis by (simp add: resolve_def Let_def)
qed

lemma resolve_fault:
  assumes "msg_question req = qs # rest"
    and "util_from (q_name qs) (util_split (q_name qs)) (- 1) = ''eth.''"
    and "fst (ENSCache_get cd (cache srv) (q_name qs) types_TXT now) = None"
    and "ethClient_resolveENS srv (butlast (q_name qs)) = Inl e"
  shows "resolve cd srv req now later =
    (Inl e, srv\<lparr>cache := snd (ENSCache_get cd (cache srv) (q_name qs) types_TXT now)\<rparr>,
     [ResolveENS (butlast (q_name qs))])"
proof (cases "ENSCache_get cd (cache srv) (q_name qs) types_TXT now")
  case (Pair r c1)
  with assms show ?thesis by (simp add: resolve_def Let_def slice_butlast)
qed

lemma synthesized_fields:
  "synthesized qs res =
     \<lparr>msg_id = 0, msg_qr = False, msg_opcode = opcodes_QUERY, msg_ad = False,
      msg_code = codes_NOERROR, msg_question = [qs],
      msg_answer = [\<lparr>rr_name = q_name qs, rr_type = types_TXT, rr_class = classes_IN,
        rr_ttl = 86000,
        rr_data = TXTRecord [''oa1:eth recipient_address='' @ template res @
          ''; recipient_name='' @ butlast (q_name qs) @ '';'']\<rparr>],
      msg_authority = [], msg_additional = []\<rparr>"
  by (simp add: synthesized_def Let_def slice_butlast new_Message_def new_Record_def
      new_TXTRecord_def)

lemma resolve_synthesis:
  assumes "msg_question req = qs # rest"
    and "util_from (q_name qs) (util_split (q_name qs)) (- 1) = ''eth.''"
    and "fst (ENSCache_get cd (cache srv) (q_name qs) types_TXT now) = None"
    and "ethClient_resolveENS srv (butlast (q_name qs)) = Inr res"
  shows "resolve cd srv req now later =
    (case ENSCache_set cd (snd (ENSCache_get cd (cache srv) (q_name qs) types_TXT now))
            (q_name qs) types_TXT (synthesized qs res) later of
       Inl e \<Rightarrow>
         (Inl e, srv\<lparr>cache := snd (ENSCache_get cd (cache srv) (q_name qs) types_TXT now)\<rparr>,
          [ResolveENS (butlast (q_name qs))])
     | Inr c2 \<Rightarrow>
         (Inr (synthesized qs res), srv\<lparr>cache := c2\<rparr>, [ResolveENS (butlast (q_name qs))]))"
proof (cases "ENSCache_get cd (cache srv) (q_name qs) types_TXT now")
  case (Pair r c1)
  with assms show ?thesis
    by (simp add: resolve_def synthesized_def Let_def slice_butlast split: sum.splits)
qed

lemma resolve_stored:
  assumes "msg_question req = qs # rest"
    and "util_from (q_name qs) (util_split (q_name qs)) (- 1) = ''eth.''"
    and "fst (ENSCache_get cd (cache srv) (q_name qs) types_TXT now) = None"
    and "ethClient_resolveENS srv (butlast (q_name qs)) = Inr res"
    and "compress cd (synthesized qs res) = Inr r"
  shows "resolve cd srv req now later =
    (Inr (synthesized qs res),
     srv\<lparr>cache := LRU_set (snd (ENSCache_get cd (cache srv) (q_name qs) types_TXT now))
       (toKey (q_name qs) types_TXT) \<lparr>time = later, raw = r\<rparr>\<rparr>,
     [ResolveENS (butlast (q_name qs))])"
  by (simp add: resolve_synthesis [OF assms(1-4)] ENSCache_set_Inr [OF assms(5)])

lemma resolve_not_encodable:
  assumes "msg_question req = qs # rest"
    and "util_from (q_name qs) (util_split (q_name qs)) (- 1) = ''eth.''"
    and "fst (ENSCache_get cd (cache srv) (q_name qs) types_TXT now) = None"
    and "ethClient_resolveENS srv (butlast (q_name qs)) = Inr res"
    and "compress cd (synthesized qs res) = Inl e"
  shows "resolve cd srv req now later =
    (Inl e, srv\<lparr>cache := snd (ENSCache_get cd (cache srv) (q_name qs) types_TXT now)\<rparr>,
     [ResolveENS (butlast (q_name qs))])"
  by (simp add: resolve_synthesis [OF assms(1-4)] ENSCache_set_Inl [OF assms(5)])

text \<open>
  The sample codec encodes the synthesized message exactly when its string fits: the fixed
  parts of the string take 44 bytes, the rest are the rendered registry value and the name
  without its closing dot.
\<close>

lemma encodable_synthesized:
  "encodable (synthesized qs res)
     \<longleftrightarrow> 44 + length (template res) + length (butlast (q_name qs)) \<le> 255"
  by (simp add: synthesized_fields encodable_def)

lemma compress_synthesized:
  "compress plain_codec (synthesized qs res) =
     (if 44 + length (template res) + length (butlast (q_name qs)) \<le> 255
      then Inr (synthesized qs res) else Inl EncodingError)"
  by (simp add: plain_codec_def encodable_synthesized)

section \<open>Sample evaluations\<close>

lemma sample_label_alice: "util_from ''alice.eth.'' (util_split ''alice.eth.'') (- 1) = ''eth.''"
  by code_simp

lemma sample_label_ghost: "util_from ''ghost.eth.'' (util_split ''ghost.eth.'') (- 1) = ''eth.''"
  by code_simp

lemma sample_label_upper: "util_from ''alice.ETH.'' (util_split ''alice.ETH.'') (- 1) = ''ETH.''"
  by code_simp

lemma sample_label_mixed: "util_from ''ALICE.eth.'' (util_split ''ALICE.eth.'') (- 1) = ''eth.''"
  by code_simp

lemma sample_label_com: "util_from ''example.com.'' (util_split ''example.com.'') (- 1) = ''com.''"
  by code_simp

lemma sample_label_long: "util_from long_name (util_split long_name) (- 1) = ''eth.''"
  by code_simp

lemma sample_label_longer: "util_from longer_name (util_split longer_name) (- 1) = ''eth.''"
  by code_simp

lemma sample_lengths:
  "length long_name = 187" "length longer_name = 248"
  "length (butlast long_name) = 186" "length (butlast longer_name) = 247"
  "length sample_address = 42"
  by (simp_all add: long_name_def longer_name_def long_label_def sample_address_def)

lemma sample_lower_label: "toLowerCase ''ETH.'' = toLowerCase ''eth.''"
  by code_simp

lemma sample_toKey_ghost: "toKey ''ghost.eth.'' types_TXT = ''ghost.eth.;16''"
  by code_simp

lemma sample_registry_values:
  "sample_registry ''alice.eth'' = Inr (JSString ''0xABCD'')"
  "sample_registry ''ghost.eth'' = Inr JSNull"
  "sample_registry ''ALICE.eth'' = Inr JSNull"
  "sample_registry (butlast long_name) = Inr (JSString sample_address)"
  "sample_registry (butlast longer_name) = Inr JSNull"
proof -
  have "length (butlast long_name) \<noteq> length ''alice.eth''"
    "length (butlast longer_name) \<noteq> length ''alice.eth''"
    "length (butlast longer_name) \<noteq> length (butlast long_name)"
    "length ''ghost.eth'' \<noteq> length (butlast long_name)"
    "length ''ALICE.eth'' \<noteq> length (butlast long_name)"
    by (simp_all add: sample_lengths)
  then have ne: "butlast long_name \<noteq> ''alice.eth''" "butlast longer_name \<noteq> ''alice.eth''"
    "butlast longer_name \<noteq> butlast long_name" "''ghost.eth'' \<noteq> butlast long_name"
    "''ALICE.eth'' \<noteq> butlast long_name"
    by fastforce+
  show "sample_registry ''alice.eth'' = Inr (JSString ''0xABCD'')"
    by (simp add: sample_registry_def)
  show "sample_registry ''ghost.eth'' = Inr JSNull"
    using ne by (simp add: sample_registry_def)
  show "sample_registry ''ALICE.eth'' = Inr JSNull"
    using ne by (simp add: sample_registry_def)
  show "sample_registry (butlast long_name) = Inr (JSString sample_address)"
    using ne by (simp add: sample_registry_def)
  show "sample_registry (butlast longer_name) = Inr JSNull"
    using ne by (simp add: sample_registry_def)
qed

lemma sample_server_fields:
  "cache sample_server = \<lparr>capacity = 500, items = []\<rparr>"
  "hns_resolve sample_server = sample_hns"
  "ethClient_resolveENS sample_server = sample_registry"
  "key sample_server = 7"
  by (simp_all add: sample_server_def RecursiveServer_new_def ENSCache_new_def LRU_new_def)

lemma sample_server_miss:
  "fst (ENSCache_get plain_codec (cache sample_server) n types_TXT now) = None"
  "fst (ENSCache_get plain_codec \<lparr>capacity = 500, items = []\<rparr> n types_TXT now) = None"
  by (simp_all add: sample_server_fields fst_ENSCache_get fst_LRU_get)

lemma sample_request_question: "msg_question (request qs) = qs"
  by (simp add: request_def)

lemma sample_ask_name: "q_name (ask n t) = n"
  by (simp add: ask_def)

section \<open>Routing\<close>

text \<open>
  The routing of \<open>resolve\<close> as the source writes it: the top-level label of the first
  question's name is compared with the string \<open>eth.\<close>. If it is that string, the only
  collaborator call is at most one registry lookup of the name without its closing dot;
  otherwise the question goes to the resolver, whose outcome is returned as it is, and the
  server is left as it was.
\<close>

lemma resolve_routing:
  assumes "msg_question req = qs # rest"
  shows "(util_from (q_name qs) (util_split (q_name qs)) (- 1) = ''eth.'' \<longrightarrow>
            snd (snd (resolve cd srv req now later)) = [] \<or>
            snd (snd (resolve cd srv req now later)) = [ResolveENS (butlast (q_name qs))]) \<and>
         (util_from (q_name qs) (util_split (q_name qs)) (- 1) \<noteq> ''eth.'' \<longrightarrow>
            resolve cd srv req now later = (hns_resolve srv qs, srv, [HnsResolve qs]))"
proof (intro conjI impI)
  assume label: "util_from (q_name qs) (util_split (q_name qs)) (- 1) = ''eth.''"
  show "snd (snd (resolve cd srv req now later)) = [] \<or>
        snd (snd (resolve cd srv req now later)) = [ResolveENS (butlast (q_name qs))]"
  proof (cases "fst (ENSCache_get cd (cache srv) (q_name qs) types_TXT now)")
    case (Some m)
    from resolve_hit [OF assms label Some, where later = later] show ?thesis by simp
  next
    case None
    show ?thesis
    proof (cases "ethClient_resolveENS srv (butlast (q_name qs))")
      case (Inl e)
      from resolve_fault [OF assms label None Inl, where later = later] show ?thesis by simp
    next
      case (Inr res)
      from resolve_synthesis [OF assms label None Inr, where later = later] show ?thesis
        by (simp split: sum.splits)
    qed
  qed
next
  assume "util_from (q_name qs) (util_split (q_name qs)) (- 1) \<noteq> ''eth.''"
  with assms show "resolve cd srv req now later = (hns_resolve srv qs, srv, [HnsResolve qs])"
    by (rule resolve_delegate)
qed

text \<open>
  C1: \<open>resolve\<close> is to route by the rightmost label of the question name under
  case-normalised comparison with the reserved label, so that every question under the
  reserved label is intercepted and never reaches the delegation adapter. The source
  compares the label with \<open>eth.\<close> as written. For the question \<open>alice.ETH.\<close>, whose
  top-level label is the reserved label up to case, \<open>resolve\<close> does not enter the
  interception path: it passes the question to the delegation adapter and never calls the
  registry. The question \<open>ALICE.eth.\<close>, which differs from \<open>alice.eth.\<close> by case in another
  label, is intercepted.
\<close>

theorem resolve_uppercase_delegated:
  "toLowerCase (util_from ''alice.ETH.'' (util_split ''alice.ETH.'') (- 1)) = toLowerCase ''eth.'' \<and>
   snd (snd (resolve plain_codec sample_server (request [ask ''alice.ETH.'' types_TXT]) 1000 1500))
     = [HnsResolve (ask ''alice.ETH.'' types_TXT)] \<and>
   fst (resolve plain_codec sample_server (request [ask ''alice.ETH.'' types_TXT]) 1000 1500)
     = sample_hns (ask ''alice.ETH.'' types_TXT) \<and>
   snd (snd (resolve plain_codec sample_server (request [ask ''ALICE.eth.'' types_TXT]) 1000 1500))
     = [ResolveENS ''ALICE.eth'']"
proof -
  have "util_from (q_name (ask ''alice.ETH.'' types_TXT))
      (util_split (q_name (ask ''alice.ETH.'' types_TXT))) (- 1) \<noteq> ''eth.''"
    by (simp add: sample_ask_name sample_label_upper)
  from resolve_delegate [OF _ this, where req = "request [ask ''alice.ETH.'' types_TXT]"
      and rest = "[]" and cd = plain_codec and srv = sample_server and now = 1000 and later = 1500]
  have upper: "resolve plain_codec sample_server (request [ask ''alice.ETH.'' types_TXT]) 1000 1500
      = (sample_hns (ask ''alice.ETH.'' types_TXT), sample_server,
         [HnsResolve (ask ''alice.ETH.'' types_TXT)])"
    by (simp add: sample_request_question sample_server_fields)
  have "compress plain_codec (synthesized (ask ''ALICE.eth.'' types_TXT) JSNull)
      = Inr (synthesized (ask ''ALICE.eth.'' types_TXT) JSNull)"
    by (simp add: compress_synthesized sample_ask_name)
  from resolve_stored [where req = "request [ask ''ALICE.eth.'' types_TXT]"
      and qs = "ask ''ALICE.eth.'' types_TXT" and rest = "[]" and cd = plain_codec
      and srv = sample_server and now = 1000 and later = 1500 and res = JSNull, OF _ _ _ _ this]
  have mixed: "snd (snd (resolve plain_codec sample_server
      (request [ask ''ALICE.eth.'' types_TXT]) 1000 1500)) = [ResolveENS ''ALICE.eth'']"
    by (simp add: sample_request_question sample_ask_name sample_label_mixed sample_server_miss
        sample_server_fields sample_registry_values)
  show ?thesis
    by (simp add: upper mixed sample_label_upper sample_lower_label)
qed

section \<open>Synthesis\<close>

text \<open>
  C2, as amended: for an intercepted query that misses the cache, for which the registry
  returns an address A, and whose synthesized message the codec can encode (its string is
  at most 255 bytes long), the response of \<open>resolve\<close> has exactly one answer record: of type
  TXT, named as the query, with ttl 86000 and the single string
  \<open>oa1:eth recipient_address=A; recipient_name=bare;\<close>, where \<open>bare\<close> is the query name
  without its closing root dot. The question section is the original question, the opcode is
  QUERY, the message id is 0 and the \<open>ad\<close> flag is false.
\<close>

theorem resolve_synthesizes:
  assumes "msg_question req = qs # rest"
    and "util_from (q_name qs) (util_split (q_name qs)) (- 1) = ''eth.''"
    and "fst (ENSCache_get cd (cache srv) (q_name qs) types_TXT now) = None"
    and "q_name qs = bare @ ''.''"
    and "ethClient_resolveENS srv bare = Inr (JSString A)"
    and "compress cd (synthesized qs (JSString A)) = Inr r"
  shows "\<exists>msg rec. fst (resolve cd srv req now later) = Inr msg \<and>
           msg_answer msg = [rec] \<and> rr_type rec = types_TXT \<and> rr_name rec = q_name qs \<and>
           rr_ttl rec = 86000 \<and>
           rr_data rec = TXTRecord
             [''oa1:eth recipient_address='' @ A @ ''; recipient_name='' @ bare @ '';''] \<and>
           msg_question msg = [qs] \<and> msg_opcode msg = opcodes_QUERY \<and> msg_id msg = 0 \<and>
           \<not> msg_ad msg"
proof -
  from assms(4) have bare: "butlast (q_name qs) = bare" by simp
  from assms(5) have "ethClient_resolveENS srv (butlast (q_name qs)) = Inr (JSString A)"
    by (simp add: bare)
  from resolve_stored [OF assms(1-3) this assms(6), where later = later] show ?thesis
    by (simp add: synthesized_fields bare)
qed

theorem resolve_synthesizes_witness:
  "\<exists>msg rec. fst (resolve plain_codec sample_server (request [ask ''alice.eth.'' types_TXT]) 1000 1500)
       = Inr msg \<and>
     msg_answer msg = [rec] \<and> rr_type rec = types_TXT \<and> rr_name rec = ''alice.eth.'' \<and>
     rr_ttl rec = 86000 \<and>
     rr_data rec = TXTRecord [''oa1:eth recipient_address=0xABCD; recipient_name=alice.eth;''] \<and>
     msg_question msg = [ask ''alice.eth.'' types_TXT] \<and> msg_opcode msg = opcodes_QUERY \<and>
     msg_id msg = 0 \<and> \<not> msg_ad msg"
proof -
  have enc: "compress plain_codec (synthesized (ask ''alice.eth.'' types_TXT) (JSString ''0xABCD''))
      = Inr (synthesized (ask ''alice.eth.'' types_TXT) (JSString ''0xABCD''))"
    by (simp add: compress_synthesized sample_ask_name)
  from resolve_synthesizes [where req = "request [ask ''alice.eth.'' types_TXT]"
      and qs = "ask ''alice.eth.'' types_TXT" and rest = "[]" and cd = plain_codec
      and srv = sample_server and now = 1000 and later = 1500 and bare = "''alice.eth''"
      and A = "''0xABCD''", OF _ _ _ _ _ enc]
    sample_server_miss(1) [of "''alice.eth.''" 1000]
  show ?thesis
    by (simp add: sample_request_question sample_ask_name sample_label_alice
        sample_server_fields sample_registry_values)
qed

text \<open>
  The claim without the proviso fails: the query for the name of 187 characters is
  intercepted, misses the cache and has an address of 42 characters in the registry, but the
  string of the synthesized message would take 272 bytes, the store of the message throws
  and \<open>resolve\<close> returns no response.
\<close>

theorem resolve_long_name_counterexample:
  "util_from long_name (util_split long_name) (- 1) = ''eth.'' \<and>
   fst (ENSCache_get plain_codec (cache sample_server) long_name types_TXT 1000) = None \<and>
   ethClient_resolveENS sample_server (butlast long_name) = Inr (JSString sample_address) \<and>
   fst (resolve plain_codec sample_server (request [ask long_name types_TXT]) 1000 1500)
     = Inl EncodingError"
proof -
  have enc: "compress plain_codec (synthesized (ask long_name types_TXT) (JSString sample_address))
      = Inl EncodingError"
    by (simp add: compress_synthesized sample_ask_name sample_lengths)
  from resolve_not_encodable [where req = "request [ask long_name types_TXT]"
      and qs = "ask long_name types_TXT" and rest = "[]" and cd = plain_codec
      and srv = sample_server and now = 1000 and later = 1500
      and res = "JSString sample_address", OF _ _ _ _ enc]
  have "fst (resolve plain_codec sample_server (request [ask long_name types_TXT]) 1000 1500)
      = Inl EncodingError"
    by (simp add: sample_request_question sample_ask_name sample_label_long sample_server_miss
        sample_server_fields sample_registry_values)
  then show ?thesis
    by (simp add: sample_label_long sample_server_miss sample_server_fields
        sample_registry_values)
qed

text \<open>
  C3, as amended: for an intercepted query that misses the cache, for which the registry
  lookup yields no address (the awaited value is \<open>null\<close>, \<open>undefined\<close> or the empty string),
  and whose synthesized message the codec can encode (its string is at most 255 bytes
  long), \<open>resolve\<close> signals no failure and returns no negative response: it returns a
  response with code NOERROR whose single answer is a TXT record, and the
  \<open>recipient_address\<close> field of its string holds the rendering of the missing value, which
  is \<open>null\<close>, \<open>undefined\<close> or empty.
\<close>

theorem resolve_without_address:
  assumes "msg_question req = qs # rest"
    and "util_from (q_name qs) (util_split (q_name qs)) (- 1) = ''eth.''"
    and "fst (ENSCache_get cd (cache srv) (q_name qs) types_TXT now) = None"
    and "q_name qs = bare @ ''.''"
    and "ethClient_resolveENS srv bare = Inr res"
    and "\<not> truthy res"
    and "compress cd (synthesized qs res) = Inr r"
  shows "\<exists>msg rec. fst (resolve cd srv req now later) = Inr msg \<and>
           msg_code msg = codes_NOERROR \<and> msg_answer msg = [rec] \<and> rr_type rec = types_TXT \<and>
           rr_data rec = TXTRecord
             [''oa1:eth recipient_address='' @ template res @ ''; recipient_name='' @ bare @ '';''] \<and>
           template res \<in> {'''', ''null'', ''undefined''}"
proof -
  from assms(4) have bare: "butlast (q_name qs) = bare" by simp
  from assms(5) have "ethClient_resolveENS srv (butlast (q_name qs)) = Inr res"
    by (simp add: bare)
  from resolve_stored [OF assms(1-3) this assms(7), where later = later]
  have "\<exists>msg rec. fst (resolve cd srv req now later) = Inr msg \<and>
           msg_code msg = codes_NOERROR \<and> msg_answer msg = [rec] \<and> rr_type rec = types_TXT \<and>
           rr_data rec = TXTRecord
             [''oa1:eth recipient_address='' @ template res @ ''; recipient_name='' @ bare @ '';'']"
    by (simp add: synthesized_fields bare)
  moreover from assms(6) have "template res \<in> {'''', ''null'', ''undefined''}"
    by (cases res) simp_all
  ultimately show ?thesis by blast
qed

theorem resolve_without_address_witness:
  "\<exists>msg rec. fst (resolve plain_codec sample_server (request [ask ''ghost.eth.'' types_TXT]) 1000 1500)
       = Inr msg \<and>
     msg_code msg = codes_NOERROR \<and> msg_answer msg = [rec] \<and> rr_type rec = types_TXT \<and>
     rr_data rec = TXTRecord [''oa1:eth recipient_address=null; recipient_name=ghost.eth;'']"
proof -
  have enc: "compress plain_codec (synthesized (ask ''ghost.eth.'' types_TXT) JSNull)
      = Inr (synthesized (ask ''ghost.eth.'' types_TXT) JSNull)"
    by (simp add: compress_synthesized sample_ask_name)
  from resolve_without_address [where req = "request [ask ''ghost.eth.'' types_TXT]"
      and qs = "ask ''ghost.eth.'' types_TXT" and rest = "[]" and cd = plain_codec
      and srv = sample_server and now = 1000 and later = 1500 and bare = "''ghost.eth''"
      and res = JSNull, OF _ _ _ _ _ _ enc]
    sample_server_miss(1) [of "''ghost.eth.''" 1000]
  show ?thesis
    by (simp add: sample_request_question sample_ask_name sample_label_ghost
        sample_server_fields sample_registry_values)
qed

text \<open>
  The claim without the proviso fails: the query for the name of 248 characters is
  intercepted and misses the cache, and the registry has no address for it, but the string
  of the synthesized message would take 295 bytes, the store of the message throws and
  \<open>resolve\<close> signals the failure.
\<close>

theorem resolve_long_name_null_counterexample:
  "util_from longer_name (util_split longer_name) (- 1) = ''eth.'' \<and>
   fst (ENSCache_get plain_codec (cache sample_server) longer_name types_TXT 1000) = None \<and>
   ethClient_resolveENS sample_server (butlast longer_name) = Inr JSNull \<and>
   fst (resolve plain_codec sample_server (request [ask longer_name types_TXT]) 1000 1500)
     = Inl EncodingError"
proof -
  have enc: "compress plain_codec (synthesized (ask longer_name types_TXT) JSNull)
      = Inl EncodingError"
    by (simp add: compress_synthesized sample_ask_name sample_lengths)
  from resolve_not_encodable [where req = "request [ask longer_name types_TXT]"
      and qs = "ask longer_name types_TXT" and rest = "[]" and cd = plain_codec
      and srv = sample_server and now = 1000 and later = 1500
      and res = JSNull, OF _ _ _ _ enc]
  have "fst (resolve plain_codec sample_server (request [ask longer_name types_TXT]) 1000 1500)
      = Inl EncodingError"
    by (simp add: sample_request_question sample_ask_name sample_label_longer sample_server_miss
        sample_server_fields sample_registry_values)
  then show ?thesis
    by (simp add: sample_label_longer sample_server_miss sample_server_fields
        sample_registry_values)
qed

section \<open>The first question\<close>

text \<open>
  C9: \<open>resolve\<close> bases routing, cache lookup, registry lookup and synthesis on the first
  question of the request alone. For a request whose question section is not empty, the
  further questions (and every other field of the request) have no effect on the outcome,
  the cache or the collaborator calls; on a request with an empty question section
  \<open>resolve\<close> fails with a \<open>TypeError\<close>, calls no collaborator and returns no response.
\<close>

theorem resolve_first_question_only:
  "resolve cd srv (req\<lparr>msg_question := q # rest\<rparr>) now later
     = resolve cd srv (req'\<lparr>msg_question := [q]\<rparr>) now later \<and>
   resolve cd srv (req\<lparr>msg_question := []\<rparr>) now later = (Inl TypeError, srv, [])"
  by (simp add: resolve_def)

theorem resolve_first_question_only_witness:
  "resolve plain_codec sample_server
      (request [ask ''alice.eth.'' types_TXT, ask ''example.com.'' 1]) 1000 1500
     = resolve plain_codec sample_server (request [ask ''alice.eth.'' types_TXT]) 1000 1500 \<and>
   resolve plain_codec sample_server (request []) 1000 1500 = (Inl TypeError, sample_server, [])"
  using resolve_first_question_only [where req = "request []" and req' = "request []"
      and q = "ask ''alice.eth.'' types_TXT" and rest = "[ask ''example.com.'' 1]"
      and cd = plain_codec and srv = sample_server and now = 1000 and later = 1500]
  by (simp add: request_def)

section \<open>The keys of the server's cache\<close>

lemma toString10_TXT: "toString10 types_TXT = ''16''"
  by code_simp

lemma toKey_TXT: "toKey n types_TXT = toLowerCase n @ '';16''"
  by (simp add: toKey_def toString10_TXT)

lemma txt_key_type:
  assumes "drop (length (toKey n ty) - 3) (toKey n ty) = '';16''"
  shows "ty = types_TXT"
proof -
  let ?k = "toKey n ty"
  have "take (length ?k - 3) ?k @ drop (length ?k - 3) ?k = ?k" by simp
  with assms have "toLowerCase n @ CHR '';'' # toString10 ty
      = take (length ?k - 3) ?k @ CHR '';'' # toString10 types_TXT"
    by (simp add: toKey_def toString10_TXT)
  from split_at_last_sep [OF this toString10_no_sep toString10_no_sep]
  show ?thesis by (simp add: toString10_inj)
qed

lemma txt_keyed_type:
  assumes "txt_keyed c" and "map_of (items c) (toKey n ty) = Some item"
  shows "ty = types_TXT"
proof -
  from assms(2) have "(toKey n ty, item) \<in> set (items c)" by (rule map_of_SomeD)
  with assms(1) have "drop (length (toKey n ty) - 3) (toKey n ty) = '';16''"
    by (auto simp: txt_keyed_def list_all_iff)
  then show ?thesis by (rule txt_key_type)
qed

lemma txt_keyed_new: "txt_keyed (ENSCache_new cap)"
  by (simp add: txt_keyed_def ENSCache_new_def LRU_new_def)

lemma txt_keyed_set: "txt_keyed c \<Longrightarrow> txt_keyed (LRU_set c (toKey n types_TXT) e)"
proof -
  assume a: "txt_keyed c"
  have k: "drop (length (toKey n types_TXT) - 3) (toKey n types_TXT) = '';16''"
    by (simp add: toKey_TXT)
  from a have "set (compact cap (removeList k (items c) @ [kv])) \<subseteq> set (items c) \<union> {kv}" for cap k kv
    by (auto simp: compact_def removeList_def dest: in_set_dropD)
  with a k show ?thesis
    by (fastforce simp: txt_keyed_def list_all_iff LRU_set_def)
qed

lemma txt_keyed_get: "txt_keyed c \<Longrightarrow> txt_keyed (snd (ENSCache_get cd c n t now))"
proof -
  assume a: "txt_keyed c"
  have "set (items (snd (LRU_get c k))) \<subseteq> set (items c)" for k
    by (auto simp: LRU_get_def removeList_def split: option.splits dest: map_of_SomeD)
  with a show ?thesis
    by (auto simp: txt_keyed_def list_all_iff snd_ENSCache_get)
qed

lemma resolve_cases:
  assumes "msg_question req = qs # rest"
  shows "cache (fst (snd (resolve cd srv req now later))) = cache srv \<or>
    cache (fst (snd (resolve cd srv req now later)))
      = snd (ENSCache_get cd (cache srv) (q_name qs) types_TXT now) \<or>
    (\<exists>e. cache (fst (snd (resolve cd srv req now later)))
      = LRU_set (snd (ENSCache_get cd (cache srv) (q_name qs) types_TXT now))
          (toKey (q_name qs) types_TXT) e)"
proof (cases "util_from (q_name qs) (util_split (q_name qs)) (- 1) = ''eth.''")
  case False
  from resolve_delegate [OF assms False, where cd = cd and srv = srv and now = now and later = later]
  show ?thesis by simp
next
  case label: True
  show ?thesis
  proof (cases "fst (ENSCache_get cd (cache srv) (q_name qs) types_TXT now)")
    case (Some m)
    from resolve_hit [OF assms label Some, where later = later] show ?thesis by simp
  next
    case None
    show ?thesis
    proof (cases "ethClient_resolveENS srv (butlast (q_name qs))")
      case (Inl e)
      from resolve_fault [OF assms label None Inl, where later = later] show ?thesis by simp
    next
      case (Inr res)
      show ?thesis
      proof (cases "compress cd (synthesized qs res)")
        case (Inl e)
        from resolve_not_encodable [OF assms label None Inr Inl, where later = later]
        show ?thesis by simp
      next
        case r: (Inr r)
        from resolve_stored [OF assms label None Inr r, where later = later]
        show ?thesis by simp blast
      qed
    qed
  qed
qed

text \<open>
  The cache of a new server holds keys of type TXT only and respects its capacity, and
  \<open>resolve\<close> keeps both.
\<close>

lemma resolve_txt_keyed:
  assumes "txt_keyed (cache srv)"
  shows "txt_keyed (cache (fst (snd (resolve cd srv req now later))))"
proof (cases "msg_question req")
  case Nil
  with assms show ?thesis by (simp add: resolve_no_question)
next
  case (Cons qs rest)
  from resolve_cases [OF Cons, of cd srv now later] assms show ?thesis
    by (auto simp: txt_keyed_get txt_keyed_set)
qed

lemma resolve_bounded:
  assumes "length (items (cache srv)) \<le> capacity (cache srv)"
  shows "length (items (cache (fst (snd (resolve cd srv req now later)))))
    \<le> capacity (cache (fst (snd (resolve cd srv req now later))))"
proof (cases "msg_question req")
  case Nil
  with assms show ?thesis by (simp add: resolve_no_question)
next
  case (Cons qs rest)
  let ?g = "snd (ENSCache_get cd (cache srv) (q_name qs) types_TXT now)"
  have g: "length (items ?g) \<le> capacity ?g"
    using assms length_LRU_get [of "cache srv" "toKey (q_name qs) types_TXT"]
    by (simp add: snd_ENSCache_get capacity_LRU_get)
  then have "length (items (LRU_set ?g k e)) \<le> capacity (LRU_set ?g k e)" for k e
    by (simp add: length_LRU_set capacity_LRU_set)
  with resolve_cases [OF Cons, of cd srv now later] assms g show ?thesis
    by auto
qed

lemma new_server_cache:
  "txt_keyed (cache (RecursiveServer_new k hr hl er)) \<and>
   length (items (cache (RecursiveServer_new k hr hl er)))
     \<le> capacity (cache (RecursiveServer_new k hr hl er))"
  by (simp add: RecursiveServer_new_def txt_keyed_new) (simp add: ENSCache_new_def LRU_new_def)

section \<open>Cache hits\<close>

text \<open>
  C4: for an intercepted query whose key, built from its name and a record type, has a
  fresh entry in the server's cache (written at most six hours earlier and still stored),
  \<open>resolve\<close> returns the decoded cached response at once: no collaborator is called, no
  message is synthesized or stored (the contents of the cache stay as they are), and the
  response has the content of the one that was cached, given that the codec decodes what it
  compressed. The cache is the server's own, which holds keys of type TXT only, so the
  record type of the key is TXT.
\<close>

theorem resolve_cache_hit:
  assumes "msg_question req = qs # rest"
    and "util_from (q_name qs) (util_split (q_name qs)) (- 1) = ''eth.''"
    and "txt_keyed (cache srv)"
    and "0 < capacity (cache srv)"
    and "map_of (items (cache srv)) (toKey (q_name qs) ty) = Some item"
    and "now \<le> time item + freshness_window"
    and "compress cd R = Inr (raw item)"
    and "decode cd (raw item) = R"
  shows "fst (resolve cd srv req now later) = Inr R \<and>
         snd (snd (resolve cd srv req now later)) = [] \<and>
         map_of (items (cache (fst (snd (resolve cd srv req now later)))))
           = map_of (items (cache srv))"
proof -
  from txt_keyed_type [OF assms(3,5)] have ty: "ty = types_TXT" .
  with assms(4-6,8) have "fst (ENSCache_get cd (cache srv) (q_name qs) types_TXT now) = Some R"
    by (simp add: fst_ENSCache_get fst_LRU_get)
  from resolve_hit [OF assms(1,2) this, where later = later] show ?thesis
    by (simp add: map_of_ENSCache_get)
qed

theorem resolve_cache_hit_witness:
  "fst (resolve plain_codec
      (fst (snd (resolve plain_codec sample_server (request [ask ''alice.eth.'' types_TXT]) 1000 1500)))
      (request [ask ''alice.eth.'' types_TXT]) 2000 2500)
     = fst (resolve plain_codec sample_server (request [ask ''alice.eth.'' types_TXT]) 1000 1500) \<and>
   snd (snd (resolve plain_codec
      (fst (snd (resolve plain_codec sample_server (request [ask ''alice.eth.'' types_TXT]) 1000 1500)))
      (request [ask ''alice.eth.'' types_TXT]) 2000 2500)) = []"
proof -
  let ?req = "request [ask ''alice.eth.'' types_TXT]"
  let ?q = "ask ''alice.eth.'' types_TXT"
  let ?m = "synthesized ?q (JSString ''0xABCD'')"
  let ?item = "\<lparr>time = 1500, raw = ?m\<rparr>"
  let ?srv = "sample_server\<lparr>cache := \<lparr>capacity = 500, items = [(''alice.eth.;16'', ?item)]\<rparr>\<rparr>"
  have q: "msg_question ?req = ?q # []" "q_name ?q = ''alice.eth.''"
    by (simp_all add: sample_request_question ask_def)
  have label: "util_from (q_name ?q) (util_split (q_name ?q)) (- 1) = ''eth.''"
    by (simp add: q sample_label_alice)
  have miss: "fst (ENSCache_get plain_codec (cache sample_server) (q_name ?q) types_TXT 1000) = None"
    by (rule sample_server_miss)
  have reg: "ethClient_resolveENS sample_server (butlast (q_name ?q)) = Inr (JSString ''0xABCD'')"
    by (simp add: q sample_server_fields sample_registry_values)
  have enc: "compress plain_codec ?m = Inr ?m"
    by (simp add: compress_synthesized q)
  have first: "resolve plain_codec sample_server ?req 1000 1500
      = (Inr ?m, ?srv, [ResolveENS ''alice.eth''])"
    using resolve_stored [OF q(1) label miss reg enc, of 1500]
    by (simp add: q sample_server_fields ENSCache_get_def LRU_get_def LRU_set_def compact_def
        removeList_def sample_toKey_alice)
  have keyed: "txt_keyed (cache ?srv)"
    by (simp add: txt_keyed_def)
  have cap: "0 < capacity (cache ?srv)"
    by simp
  have entry: "map_of (items (cache ?srv)) (toKey (q_name ?q) types_TXT) = Some ?item"
    by (simp add: q sample_toKey_alice)
  have fresh: "2000 \<le> time ?item + freshness_window"
    by (simp add: freshness_window_def)
  have codec: "compress plain_codec ?m = Inr (raw ?item)" "decode plain_codec (raw ?item) = ?m"
    by (simp_all add: enc sample_decode)
  from resolve_cache_hit [OF q(1) label keyed cap entry fresh codec, of 2500]
  show ?thesis
    unfolding first by simp
qed

section \<open>The authentication tag\<close>

text \<open>
  C10, as amended: \<open>sign(msg, host, port)\<close> never passes the peer host and port on: the tag
  depends on the message, the server's private key and the signer's reading of the clock
  only, so two calls with the same message and the same key made at the same clock reading
  return equal tags, whatever the peer host and port of either call.
\<close>

theorem sign_ignores_peer:
  "key srv = key srv' \<Longrightarrow>
   sign hsig_sign srv msg h p clock = sign hsig_sign srv' msg h' p' clock"
  by (simp add: sign_def)

theorem sign_ignores_peer_witness:
  "sign sample_hsig sample_server ''response'' ''127.0.0.1'' 53 1000
     = sign sample_hsig sample_server ''response'' ''10.1.2.3'' 40000 1000"
  using sign_ignores_peer [of sample_server sample_server sample_hsig "''response''"
      "''127.0.0.1''" 53 1000 "''10.1.2.3''" 40000]
  by simp

text \<open>
  The tag does not depend on the message and the key alone: a signer that stamps the time of
  signing into the tag gives two calls with the same message and the same key, made one
  second apart, different tags.
\<close>

theorem sign_clock_counterexample:
  "sign sample_hsig sample_server ''response'' ''127.0.0.1'' 53 1000
     \<noteq> sign sample_hsig sample_server ''response'' ''10.1.2.3'' 40000 1001"
  by (simp add: sign_def sample_hsig_def)

end
